theory Spec2Isabelle
  imports Main
begin

section \<open>JSON values and the Python operations the ingestion code applies to them\<close>

text \<open>
  Every document the ingestion module handles is the result of decoding a JSON response
  (\<^verbatim>\<open>r.json()\<close> in \<^verbatim>\<open>fetch_json\<close>). A decoded value is \<^verbatim>\<open>None\<close>, a bool, an int, a
  float, a str, a list or a dict with str keys. A dict keeps its insertion order, so it is an
  association list; \<^verbatim>\<open>d.get(k)\<close> and \<^verbatim>\<open>d[k]\<close> read it with \<open>map_of\<close>. Strings are lists of 8-bit
  characters; the case mappings below act on the ASCII letters, which is what ticker
  symbols and XBRL concept names consist of.
\<close>

text \<open>
  A Python float is a NaN, an infinity with its sign, or a finite number. The \<^verbatim>\<open>repr\<close> of a
  finite float is the shortest decimal numeral that reads back as that float, so it names
  the float: a finite float is given here by that decimal, its sign, its digits as an
  integer without a trailing zero and its power of ten (\<open>0.0\<close> and \<open>-0.0\<close> have the digits
  \<open>0\<close> and the power \<open>0\<close>). Binary rounding is not modelled.
\<close>

datatype pyfloat = Finite bool int int | Infinity bool | NaN

datatype json =
    JNull
  | JBool bool
  | JInt int
  | JFloat pyfloat
  | JStr string
  | JList "json list"
  | JObj "(string \<times> json) list"

text \<open>The exceptions the code can raise on a decoded document.\<close>

datatype error = AttributeError | TypeError | KeyError | IndexError

text \<open>Python truth value testing, as used by \<^verbatim>\<open>not x\<close> and \<^verbatim>\<open>x or y\<close>.\<close>

fun truthy :: "json \<Rightarrow> bool" where
  "truthy JNull = False"
| "truthy (JBool b) = b"
| "truthy (JInt i) = (i \<noteq> 0)"
| "truthy (JFloat x) = (case x of Finite neg m e \<Rightarrow> m \<noteq> 0 | _ \<Rightarrow> True)"
| "truthy (JStr s) = (s \<noteq> [])"
| "truthy (JList xs) = (xs \<noteq> [])"
| "truthy (JObj kvs) = (kvs \<noteq> [])"

definition py_or :: "json \<Rightarrow> json \<Rightarrow> json" where
  "py_or a b = (if truthy a then a else b)"

text \<open>\<^verbatim>\<open>d.get(k, default)\<close> on a dict; \<^verbatim>\<open>d.get(k)\<close> has the default \<^verbatim>\<open>None\<close>.\<close>

definition dict_get :: "(string \<times> json) list \<Rightarrow> string \<Rightarrow> json \<Rightarrow> json" where
  "dict_get d k dflt = (case map_of d k of None \<Rightarrow> dflt | Some v \<Rightarrow> v)"

text \<open>\<^verbatim>\<open>x.get(k, default)\<close> on any decoded value: only a dict has the method.\<close>

fun py_get :: "json \<Rightarrow> string \<Rightarrow> json \<Rightarrow> error + json" where
  "py_get (JObj d) k dflt = Inr (dict_get d k dflt)"
| "py_get _ k dflt = Inl AttributeError"

text \<open>\<^verbatim>\<open>x.items()\<close>: only a dict has the method.\<close>

fun py_items :: "json \<Rightarrow> error + (string \<times> json) list" where
  "py_items (JObj d) = Inr d"
| "py_items _ = Inl AttributeError"

text \<open>
  \<^verbatim>\<open>for ob in x\<close>: a list yields its elements, a str its characters, a dict its keys;
  the other values are not iterable.
\<close>

fun py_iter :: "json \<Rightarrow> error + json list" where
  "py_iter (JList xs) = Inr xs"
| "py_iter (JStr s) = Inr (map (\<lambda>c. JStr [c]) s)"
| "py_iter (JObj d) = Inr (map (\<lambda>kv. JStr (fst kv)) d)"
| "py_iter _ = Inl TypeError"

text \<open>
  A \<^verbatim>\<open>for\<close> loop whose body appends rows to one list: the rows of the iterations in
  order, and the first exception raised by an iteration leaves the function.
\<close>

fun collect :: "('a \<Rightarrow> error + 'b list) \<Rightarrow> 'a list \<Rightarrow> error + 'b list" where
  "collect f [] = Inr []"
| "collect f (x # xs) =
     (case f x of
        Inl e \<Rightarrow> Inl e
      | Inr ys \<Rightarrow> (case collect f xs of Inl e \<Rightarrow> Inl e | Inr zs \<Rightarrow> Inr (ys @ zs)))"

text \<open>\<^verbatim>\<open>str.lower()\<close> on ASCII text, and the substring test \<^verbatim>\<open>term in s\<close>.\<close>

definition lower_char :: "char \<Rightarrow> char" where
  "lower_char c =
     (let n = (of_char c :: nat) in if 65 \<le> n \<and> n \<le> 90 then char_of (n + 32) else c)"

definition lower :: "string \<Rightarrow> string" where
  "lower s = map lower_char s"

fun starts_with :: "string \<Rightarrow> string \<Rightarrow> bool" where
  "starts_with [] s = True"
| "starts_with (t # ts) [] = False"
| "starts_with (t # ts) (c # cs) = (t = c \<and> starts_with ts cs)"

fun is_substring :: "string \<Rightarrow> string \<Rightarrow> bool" where
  "is_substring t [] = (t = [])"
| "is_substring t (c # cs) = (starts_with t (c # cs) \<or> is_substring t cs)"

section \<open>The fact normalizer: \<^verbatim>\<open>normalize_companyfacts\<close>\<close>

definition preferred :: "string list" where
  "preferred =
     [''us-gaap:Revenues'', ''us-gaap:SalesRevenueNet'', ''us-gaap:CostOfRevenue'',
      ''us-gaap:GrossProfit'', ''us-gaap:NetIncomeLoss'', ''us-gaap:EarningsPerShareDiluted'']"

text \<open>The f-string \<^verbatim>\<open>f"{namespace}:{fact}"\<close>.\<close>

definition concept_name :: "string \<Rightarrow> string \<Rightarrow> string" where
  "concept_name namespace fact_name = namespace @ '':'' @ fact_name"

text \<open>Lines 37 to 40: the concepts of the namespaces whose body is a dict.\<close>

fun namespace_concepts :: "string \<times> json \<Rightarrow> string list" where
  "namespace_concepts (namespace, JObj namespace_facts) =
     map (\<lambda>kv. concept_name namespace (fst kv)) namespace_facts"
| "namespace_concepts (namespace, _) = []"

definition available_concepts :: "(string \<times> json) list \<Rightarrow> string list" where
  "available_concepts all_facts = concat (map namespace_concepts all_facts)"

definition matches_any :: "string list \<Rightarrow> string \<Rightarrow> bool" where
  "matches_any terms c = list_ex (\<lambda>t. is_substring t (lower c)) terms"

text \<open>Lines 42 to 53: the concept list the row walk filters by.\<close>

definition effective_concepts :: "(string \<times> json) list \<Rightarrow> string list" where
  "effective_concepts all_facts =
     (let available = available_concepts all_facts;
          original_concept_count = length (filter (\<lambda>c. c \<in> set available) preferred)
      in if original_concept_count = 0 then
           (let revenue_concepts = filter (matches_any [''revenue'', ''sales'']) available;
                income_concepts = filter (matches_any [''income'', ''earnings'']) available;
                concepts = take 2 revenue_concepts @ take 2 income_concepts
            in if concepts = [] then take 5 available else concepts)
         else preferred)"

text \<open>Lines 65 to 73: one observation. Only a dict has \<^verbatim>\<open>get\<close>.\<close>

definition fact_row ::
  "string \<Rightarrow> string \<Rightarrow> string \<Rightarrow> string \<Rightarrow> json \<Rightarrow> (string \<times> json) list \<Rightarrow> json" where
  "fact_row cik ticker concept unit period ob =
     JObj [(''cik'', JStr cik), (''ticker'', JStr ticker), (''concept'', JStr concept),
           (''unit'', JStr unit), (''period_end_date'', period),
           (''val'', dict_get ob ''val'' JNull), (''accn'', dict_get ob ''accn'' JNull),
           (''fy'', dict_get ob ''fy'' JNull), (''fp'', dict_get ob ''fp'' JNull),
           (''form'', dict_get ob ''form'' JNull), (''filed'', dict_get ob ''filed'' JNull)]"

fun emit_observation :: "string \<Rightarrow> string \<Rightarrow> string \<Rightarrow> string \<Rightarrow> json \<Rightarrow> error + json list" where
  "emit_observation cik ticker concept unit (JObj ob) =
     (let period = py_or (dict_get ob ''end'' JNull) (dict_get ob ''fy'' JNull)
      in if \<not> truthy period then Inr [] else Inr [fact_row cik ticker concept unit period ob])"
| "emit_observation cik ticker concept unit _ = Inl AttributeError"

text \<open>Lines 63 and 64: one unit and its sequence of observations.\<close>

definition emit_unit :: "string \<Rightarrow> string \<Rightarrow> string \<Rightarrow> string \<times> json \<Rightarrow> error + json list" where
  "emit_unit cik ticker concept ua =
     (case py_iter (snd ua) of
        Inl e \<Rightarrow> Inl e
      | Inr obs \<Rightarrow> collect (emit_observation cik ticker concept (fst ua)) obs)"

text \<open>Lines 59 to 63: one concept of a namespace.\<close>

definition emit_concept ::
  "string list \<Rightarrow> string \<Rightarrow> string \<Rightarrow> string \<Rightarrow> string \<times> json \<Rightarrow> error + json list" where
  "emit_concept concepts cik ticker namespace fb =
     (let concept = concept_name namespace (fst fb)
      in if concept \<notin> set concepts then Inr []
         else (case py_get (snd fb) ''units'' (JObj []) of
                 Inl e \<Rightarrow> Inl e
               | Inr us \<Rightarrow> (case py_items us of
                              Inl e \<Rightarrow> Inl e
                            | Inr units \<Rightarrow> collect (emit_unit cik ticker concept) units)))"

text \<open>\<^verbatim>\<open>isinstance(x, dict)\<close>.\<close>

fun is_dict :: "json \<Rightarrow> bool" where
  "is_dict (JObj d) = True"
| "is_dict _ = False"

text \<open>Lines 56 to 58: one namespace; a body that is not a dict is passed over.\<close>

fun emit_namespace ::
  "string list \<Rightarrow> string \<Rightarrow> string \<Rightarrow> string \<times> json \<Rightarrow> error + json list" where
  "emit_namespace concepts cik ticker (namespace, JObj namespace_facts) =
     collect (emit_concept concepts cik ticker namespace) namespace_facts"
| "emit_namespace concepts cik ticker (namespace, _) = Inr []"

definition normalize_companyfacts :: "string \<Rightarrow> string \<Rightarrow> json \<Rightarrow> error + json list" where
  "normalize_companyfacts cik ticker facts =
     (case py_get facts ''facts'' (JObj []) of
        Inl e \<Rightarrow> Inl e
      | Inr all_facts \<Rightarrow>
          if \<not> truthy all_facts then Inr []
          else (case py_items all_facts of
                  Inl e \<Rightarrow> Inl e
                | Inr nss \<Rightarrow> collect (emit_namespace (effective_concepts nss) cik ticker) nss))"

text \<open>
  The selection policy as the specification words it: a concept matches a vocabulary term
  when its lower-cased name contains the term as a contiguous substring.
\<close>

definition contains_ignoring_case :: "string \<Rightarrow> string \<Rightarrow> bool" where
  "contains_ignoring_case t c \<longleftrightarrow> (\<exists>pre post. lower c = pre @ t @ post)"

section \<open>The ticker resolver: \<^verbatim>\<open>get_ticker_cik_map\<close>\<close>

text \<open>
  \<^verbatim>\<open>str.upper()\<close> on ASCII text, \<^verbatim>\<open>str(i)\<close> on an int and \<^verbatim>\<open>s.zfill(width)\<close>, which
  puts the zeros after a leading sign.
\<close>

definition upper_char :: "char \<Rightarrow> char" where
  "upper_char c =
     (let n = (of_char c :: nat) in if 97 \<le> n \<and> n \<le> 122 then char_of (n - 32) else c)"

definition upper :: "string \<Rightarrow> string" where
  "upper s = map upper_char s"

definition digit_char :: "int \<Rightarrow> char" where
  "digit_char d = ''0123456789'' ! nat d"

function digits_of :: "int \<Rightarrow> string" where
  "digits_of n =
     (if n < 10 then [digit_char n] else digits_of (n div 10) @ [digit_char (n mod 10)])"
  by pat_completeness auto
termination
  by (relation "measure nat") auto

declare digits_of.simps [simp del]

definition str_int :: "int \<Rightarrow> string" where
  "str_int i = (if i < 0 then CHR ''-'' # digits_of (- i) else digits_of i)"

definition zfill :: "string \<Rightarrow> nat \<Rightarrow> string" where
  "zfill s width =
     (if width \<le> length s then s
      else (case s of
              [] \<Rightarrow> replicate width CHR ''0''
            | c # cs \<Rightarrow>
                if c = CHR ''+'' \<or> c = CHR ''-''
                then c # replicate (width - length s) CHR ''0'' @ cs
                else replicate (width - length s) CHR ''0'' @ s))"

text \<open>
  An entry of the SEC ticker directory, as the test's \<^verbatim>\<open>mock_response\<close> shows it: the
  comprehension reads its keys \<^verbatim>\<open>cik_str\<close> (an int) and \<^verbatim>\<open>ticker\<close> (a str).
\<close>

record directory_entry =
  cik_str :: int
  ticker_symbol :: string

text \<open>
  \<^verbatim>\<open>d[k] = v\<close> on a dict: a key already present keeps its position and takes the new
  value, a new key goes to the end.
\<close>

fun dict_set :: "('k \<times> 'v) list \<Rightarrow> 'k \<Rightarrow> 'v \<Rightarrow> ('k \<times> 'v) list" where
  "dict_set [] k v = [(k, v)]"
| "dict_set ((k', v') # d) k v = (if k' = k then (k, v) # d else (k', v') # dict_set d k v)"

text \<open>
  Line 24, on the values of the decoded directory in their order: the dict comprehension
  stores one key after the other.
\<close>

definition get_ticker_cik_map :: "directory_entry list \<Rightarrow> (string \<times> string) list" where
  "get_ticker_cik_map data =
     foldl (\<lambda>t2c v. dict_set t2c (upper (ticker_symbol v)) (zfill (str_int (cik_str v)) 10))
       [] data"

text \<open>Line 92: the configured tickers that the map knows, each with its identifier.\<close>

definition chosen :: "string list \<Rightarrow> (string \<times> string) list \<Rightarrow> (string \<times> string) list" where
  "chosen tickers t2c =
     concat (map (\<lambda>t. case map_of t2c t of None \<Rightarrow> [] | Some cik \<Rightarrow> [(t, cik)]) tickers)"

text \<open>The padding rule as the specification words it: zeros on the left, up to the width.\<close>

definition pad_left_zeros :: "nat \<Rightarrow> string \<Rightarrow> string" where
  "pad_left_zeros width s = replicate (width - length s) CHR ''0'' @ s"

section \<open>The submission flattener: lines 99 to 110 of \<^verbatim>\<open>main\<close>\<close>

text \<open>Sequencing of steps that may raise.\<close>

definition bind_err :: "error + 'a \<Rightarrow> ('a \<Rightarrow> error + 'b) \<Rightarrow> error + 'b" where
  "bind_err m f = (case m of Inl e \<Rightarrow> Inl e | Inr x \<Rightarrow> f x)"

text \<open>\<^verbatim>\<open>len(x)\<close>: a list, a str and a dict have a length.\<close>

fun py_len :: "json \<Rightarrow> error + nat" where
  "py_len (JList xs) = Inr (length xs)"
| "py_len (JStr s) = Inr (length s)"
| "py_len (JObj d) = Inr (length d)"
| "py_len _ = Inl TypeError"

text \<open>\<^verbatim>\<open>d[k]\<close> with a str key on a dict.\<close>

definition dict_item :: "(string \<times> json) list \<Rightarrow> string \<Rightarrow> error + json" where
  "dict_item d k = (case map_of d k of None \<Rightarrow> Inl KeyError | Some v \<Rightarrow> Inr v)"

text \<open>
  \<^verbatim>\<open>x[i]\<close> with an index \<open>i\<close> from \<^verbatim>\<open>range(n)\<close>: a list and a str are indexed by position; a
  decoded dict has str keys only, so an int key is missing; the other values cannot be
  subscripted.
\<close>

fun py_index :: "json \<Rightarrow> nat \<Rightarrow> error + json" where
  "py_index (JList xs) i = (if i < length xs then Inr (xs ! i) else Inl IndexError)"
| "py_index (JStr s) i = (if i < length s then Inr (JStr [s ! i]) else Inl IndexError)"
| "py_index (JObj d) i = Inl KeyError"
| "py_index _ i = Inl TypeError"

text \<open>Lines 102 to 110: the row of index \<open>i\<close>; the dict display evaluates its values in order.\<close>

definition submission_row ::
  "string \<Rightarrow> string \<Rightarrow> json \<Rightarrow> (string \<times> json) list \<Rightarrow> nat \<Rightarrow> error + json list" where
  "submission_row cik t company rec i =
     bind_err (bind_err (dict_item rec ''accessionNumber'') (\<lambda>a. py_index a i)) (\<lambda>accession_no.
     bind_err (bind_err (dict_item rec ''form'') (\<lambda>a. py_index a i)) (\<lambda>form.
     bind_err (bind_err (dict_item rec ''filingDate'') (\<lambda>a. py_index a i)) (\<lambda>filed.
     bind_err (bind_err (dict_item rec ''reportDate'') (\<lambda>a. py_index a i)) (\<lambda>report_period.
       Inr [JObj [(''cik'', JStr (zfill cik 10)), (''ticker'', JStr t),
                  (''company_name'', company), (''accession_no'', accession_no),
                  (''form'', form), (''filed'', filed),
                  (''report_period'', report_period)]]))))"

text \<open>Lines 99 to 110 for one company, from its decoded filing history \<open>subs\<close>.\<close>

definition flatten_submissions :: "string \<Rightarrow> string \<Rightarrow> json \<Rightarrow> error + json list" where
  "flatten_submissions cik t subs =
     bind_err (py_get subs ''companyName'' (JStr [])) (\<lambda>company.
     bind_err (py_get subs ''filings'' (JObj [])) (\<lambda>filings.
     bind_err (py_get filings ''recent'' (JObj [])) (\<lambda>recent.
     bind_err (py_get recent ''accessionNumber'' (JList [])) (\<lambda>accession_numbers.
     bind_err (py_len accession_numbers) (\<lambda>n.
       (case recent of
          JObj rec \<Rightarrow> collect (submission_row cik t company rec) [0..<n]
        | _ \<Rightarrow> Inl AttributeError))))))"

section \<open>The NDJSON sink: \<^verbatim>\<open>write_ndjson\<close>\<close>

text \<open>
  Modelled from the spec: the serializer \<^verbatim>\<open>json.dumps\<close> that \<^verbatim>\<open>write_ndjson\<close> calls on
  each row belongs to the Python standard library, not to the repository. The model
  follows the library's defaults, which line 80 uses: one JSON object on one line, the
  members in insertion order, the separators \<^verbatim>\<open>", "\<close> and \<^verbatim>\<open>": "\<close>, and
  \<^verbatim>\<open>ensure_ascii\<close>, under which a string keeps the printable ASCII characters and
  escapes the quote, the backslash and every other character (a character of the
  embedding is a code point below 256, written \<^verbatim>\<open>\u00XX\<close>).
\<close>

definition hex_char :: "nat \<Rightarrow> char" where
  "hex_char d = ''0123456789abcdef'' ! d"

definition escape_char :: "char \<Rightarrow> string" where
  "escape_char c =
     (if c = CHR 0x22 then [CHR 0x5C, CHR 0x22]
      else if c = CHR 0x5C then [CHR 0x5C, CHR 0x5C]
      else if c = CHR 0x0A then [CHR 0x5C, CHR ''n'']
      else if c = CHR 0x0D then [CHR 0x5C, CHR ''r'']
      else if c = CHR 0x09 then [CHR 0x5C, CHR ''t'']
      else if c = CHR 0x08 then [CHR 0x5C, CHR ''b'']
      else if c = CHR 0x0C then [CHR 0x5C, CHR ''f'']
      else (let n = (of_char c :: nat)
            in if n < 32 \<or> 126 < n
               then [CHR 0x5C, CHR ''u'', CHR ''0'', CHR ''0'', hex_char (n div 16), hex_char (n mod 16)]
               else [c]))"

definition dumps_str :: "string \<Rightarrow> string" where
  "dumps_str s = CHR 0x22 # concat (map escape_char s) @ [CHR 0x22]"

text \<open>
  \<^verbatim>\<open>float.__repr__\<close>, which \<^verbatim>\<open>json.dumps\<close> writes for a finite float: with the digits
  \<open>ds\<close> and the decimal point after \<open>decpt\<close> of them, the exponent form when \<open>decpt\<close> is
  at most \<open>-4\<close> or above \<open>16\<close>, else the positional form, with \<open>.0\<close> after a whole
  number. A NaN and the infinities are written \<^verbatim>\<open>NaN\<close>, \<^verbatim>\<open>Infinity\<close> and \<^verbatim>\<open>-Infinity\<close>.
\<close>

definition exponent_text :: "int \<Rightarrow> string" where
  "exponent_text x =
     (if x < 0 then ''-'' else ''+'') @
     (if length (digits_of \<bar>x\<bar>) < 2 then CHR ''0'' # digits_of \<bar>x\<bar> else digits_of \<bar>x\<bar>)"

definition float_digits :: "int \<Rightarrow> int \<Rightarrow> string" where
  "float_digits m e =
     (let ds = digits_of m; n = int (length ds); decpt = n + e
      in if decpt \<le> - 4 \<or> 16 < decpt then
           take 1 ds @ (if tl ds = [] then [] else CHR ''.'' # tl ds) @
           CHR ''e'' # exponent_text (decpt - 1)
         else if decpt \<le> 0 then ''0.'' @ replicate (nat (- decpt)) CHR ''0'' @ ds
         else if decpt < n then take (nat decpt) ds @ CHR ''.'' # drop (nat decpt) ds
         else ds @ replicate (nat (decpt - n)) CHR ''0'' @ ''.0'')"

fun dumps_float :: "pyfloat \<Rightarrow> string" where
  "dumps_float NaN = ''NaN''"
| "dumps_float (Infinity neg) = (if neg then ''-Infinity'' else ''Infinity'')"
| "dumps_float (Finite neg m e) = (if neg then ''-'' else []) @ float_digits m e"

fun json_dumps :: "json \<Rightarrow> string"
  and dumps_items :: "json list \<Rightarrow> string"
  and dumps_members :: "(string \<times> json) list \<Rightarrow> string" where
  "json_dumps JNull = ''null''"
| "json_dumps (JBool b) = (if b then ''true'' else ''false'')"
| "json_dumps (JInt i) = str_int i"
| "json_dumps (JFloat x) = dumps_float x"
| "json_dumps (JStr s) = dumps_str s"
| "json_dumps (JList xs) = ''['' @ dumps_items xs @ '']''"
| "json_dumps (JObj d) = ''{'' @ dumps_members d @ ''}''"
| "dumps_items [] = []"
| "dumps_items [x] = json_dumps x"
| "dumps_items (x # y # ys) = json_dumps x @ '', '' @ dumps_items (y # ys)"
| "dumps_members [] = []"
| "dumps_members [(k, v)] = dumps_str k @ '': '' @ json_dumps v"
| "dumps_members ((k, v) # m # ms) = dumps_str k @ '': '' @ json_dumps v @ '', '' @ dumps_members (m # ms)"

text \<open>
  Lines 76 to 80. Creating the parent directory and opening the file are effects on the
  file system; the model returns the text the loop writes to the file.
\<close>

definition write_ndjson :: "json list \<Rightarrow> string" where
  "write_ndjson rows = concat (map (\<lambda>r. json_dumps r @ [CHR 0x0A]) rows)"

text \<open>
  Modelled from the spec: the reader of the round-trip property, which parses the staged
  text line by line. The repository has no reader of its own (the staged files are read
  by the warehouse's load job), so the reader is the JSON grammar as \<^verbatim>\<open>json.loads\<close>
  accepts it, on the values of the embedding: white space between tokens, the literals
  (with \<^verbatim>\<open>NaN\<close>, \<^verbatim>\<open>Infinity\<close> and \<^verbatim>\<open>-Infinity\<close>, which \<^verbatim>\<open>json.loads\<close> reads), numbers,
  strings with their escapes, lists, and objects whose repeated keys keep the last value.
  An escape of a code point above 255 is outside the embedding and gives \<open>None\<close>.
  The recursion on nested values is bounded by a fuel that the length of the text covers
  (\<open>need_le_length\<close> below).
\<close>

definition is_ws :: "char \<Rightarrow> bool" where
  "is_ws c \<longleftrightarrow> c = CHR '' '' \<or> c = CHR 0x09 \<or> c = CHR 0x0A \<or> c = CHR 0x0D"

definition skip_ws :: "string \<Rightarrow> string" where
  "skip_ws s = dropWhile is_ws s"

definition is_digit :: "char \<Rightarrow> bool" where
  "is_digit c \<longleftrightarrow> 48 \<le> (of_char c :: nat) \<and> (of_char c :: nat) \<le> 57"

definition digit_val :: "char \<Rightarrow> int" where
  "digit_val c = int (of_char c) - 48"

definition digits_value :: "string \<Rightarrow> int" where
  "digits_value ds = foldl (\<lambda>a c. 10 * a + digit_val c) 0 ds"

text \<open>
  The optional fraction and exponent of a number, as the scanner's pattern has them: a
  point or an exponent mark that no digit follows is not part of the number.
\<close>

definition parse_fraction :: "string \<Rightarrow> string \<times> string" where
  "parse_fraction s =
     (case s of
        [] \<Rightarrow> ([], s)
      | c # cs \<Rightarrow>
          if c = CHR ''.'' \<and> takeWhile is_digit cs \<noteq> []
          then (takeWhile is_digit cs, dropWhile is_digit cs)
          else ([], s))"

definition parse_exponent :: "string \<Rightarrow> int option \<times> string" where
  "parse_exponent s =
     (case s of
        [] \<Rightarrow> (None, s)
      | c # cs \<Rightarrow>
          if c = CHR ''e'' \<or> c = CHR ''E'' then
            (let negative = (cs \<noteq> [] \<and> hd cs = CHR ''-'');
                 ds = (if cs \<noteq> [] \<and> (hd cs = CHR ''-'' \<or> hd cs = CHR ''+'') then tl cs else cs)
             in if takeWhile is_digit ds = [] then (None, s)
                else (Some ((if negative then - 1 else 1) * digits_value (takeWhile is_digit ds)),
                      dropWhile is_digit ds))
          else (None, s))"

text \<open>
  The float of a decimal \<open>m\<close> times ten to the \<open>e\<close>: the decimal without its trailing
  zeros. On the numeral that \<^verbatim>\<open>repr\<close> gives a float this is that float; on any other
  numeral Python rounds to the nearest float, which the embedding does not compute.
\<close>

function strip_zeros :: "int \<Rightarrow> int \<Rightarrow> int \<times> int" where
  "strip_zeros m e =
     (if m \<noteq> 0 \<and> m mod 10 = 0 then strip_zeros (m div 10) (e + 1) else (m, e))"
  by pat_completeness auto
termination
  by (relation "measure (\<lambda>(m, e). nat \<bar>m\<bar>)") auto

declare strip_zeros.simps [simp del]

definition make_float :: "bool \<Rightarrow> int \<Rightarrow> int \<Rightarrow> pyfloat" where
  "make_float neg m e =
     (if m = 0 then Finite neg 0 0
      else Finite neg (fst (strip_zeros m e)) (snd (strip_zeros m e)))"

text \<open>
  A number: an optional sign, an integer part without a leading zero, and the optional
  fraction and exponent; an int when it has neither of them, a float otherwise.
\<close>

definition parse_number :: "string \<Rightarrow> (json \<times> string) option" where
  "parse_number s =
     (let neg = (s \<noteq> [] \<and> hd s = CHR ''-'');
          s1 = (if neg then tl s else s);
          ip = takeWhile is_digit s1;
          (fp, s3) = parse_fraction (dropWhile is_digit s1);
          (ex, s4) = parse_exponent s3
      in if ip = [] \<or> (hd ip = CHR ''0'' \<and> 1 < length ip) then None
         else if fp = [] \<and> ex = None
         then Some (JInt (if neg then - digits_value ip else digits_value ip), s4)
         else Some (JFloat (make_float neg (digits_value (ip @ fp))
                              ((case ex of None \<Rightarrow> 0 | Some x \<Rightarrow> x) - int (length fp))), s4))"

definition hex_val :: "char \<Rightarrow> nat option" where
  "hex_val c =
     (let n = (of_char c :: nat)
      in if 48 \<le> n \<and> n \<le> 57 then Some (n - 48)
         else if 97 \<le> n \<and> n \<le> 102 then Some (n - 87)
         else if 65 \<le> n \<and> n \<le> 70 then Some (n - 55)
         else None)"

definition unescape :: "char \<Rightarrow> char option" where
  "unescape e =
     (if e = CHR 0x22 then Some (CHR 0x22)
      else if e = CHR 0x5C then Some (CHR 0x5C)
      else if e = CHR ''/'' then Some (CHR ''/'')
      else if e = CHR ''n'' then Some (CHR 0x0A)
      else if e = CHR ''r'' then Some (CHR 0x0D)
      else if e = CHR ''t'' then Some (CHR 0x09)
      else if e = CHR ''b'' then Some (CHR 0x08)
      else if e = CHR ''f'' then Some (CHR 0x0C)
      else None)"

definition code_point :: "char \<Rightarrow> char \<Rightarrow> char \<Rightarrow> char \<Rightarrow> nat option" where
  "code_point h1 h2 h3 h4 =
     (case (hex_val h1, hex_val h2, hex_val h3, hex_val h4) of
        (Some a, Some b, Some c, Some d) \<Rightarrow> Some (((a * 16 + b) * 16 + c) * 16 + d)
      | _ \<Rightarrow> None)"

definition push :: "'a \<Rightarrow> ('a list \<times> string) option \<Rightarrow> ('a list \<times> string) option" where
  "push x r = map_option (\<lambda>p. (x # fst p, snd p)) r"

fun parse_chars :: "string \<Rightarrow> (string \<times> string) option" where
  "parse_chars [] = None"
| "parse_chars (c # cs) =
     (if c = CHR 0x22 then Some ([], cs)
      else if c = CHR 0x5C then
        (case cs of
           [] \<Rightarrow> None
         | e # cs1 \<Rightarrow>
             if e = CHR ''u'' then
               (case cs1 of
                  h1 # h2 # h3 # h4 # cs2 \<Rightarrow>
                    (case code_point h1 h2 h3 h4 of
                       None \<Rightarrow> None
                     | Some n \<Rightarrow> if n < 256 then push (char_of n) (parse_chars cs2) else None)
                | _ \<Rightarrow> None)
             else (case unescape e of
                     None \<Rightarrow> None
                   | Some ch \<Rightarrow> push ch (parse_chars cs1)))
      else if (of_char c :: nat) < 32 then None
      else push c (parse_chars cs))"

fun parse_value :: "nat \<Rightarrow> string \<Rightarrow> (json \<times> string) option"
  and parse_items :: "nat \<Rightarrow> string \<Rightarrow> (json list \<times> string) option"
  and parse_members :: "nat \<Rightarrow> string \<Rightarrow> ((string \<times> json) list \<times> string) option" where
  "parse_value 0 s = None"
| "parse_value (Suc fuel) s =
     (case skip_ws s of
        [] \<Rightarrow> None
      | c # cs \<Rightarrow>
          if c = CHR ''['' then
            (case skip_ws cs of
               [] \<Rightarrow> None
             | c1 # cs1 \<Rightarrow>
                 if c1 = CHR '']'' then Some (JList [], cs1)
                 else map_option (\<lambda>p. (JList (fst p), snd p)) (parse_items fuel cs))
          else if c = CHR ''{'' then
            (case skip_ws cs of
               [] \<Rightarrow> None
             | c1 # cs1 \<Rightarrow>
                 if c1 = CHR ''}'' then Some (JObj [], cs1)
                 else map_option
                        (\<lambda>p. (JObj (foldl (\<lambda>d kv. dict_set d (fst kv) (snd kv)) [] (fst p)), snd p))
                        (parse_members fuel cs))
          else if c = CHR 0x22 then map_option (\<lambda>p. (JStr (fst p), snd p)) (parse_chars cs)
          else if starts_with ''null'' (c # cs) then Some (JNull, drop 4 (c # cs))
          else if starts_with ''true'' (c # cs) then Some (JBool True, drop 4 (c # cs))
          else if starts_with ''false'' (c # cs) then Some (JBool False, drop 5 (c # cs))
          else if starts_with ''NaN'' (c # cs) then Some (JFloat NaN, drop 3 (c # cs))
          else if starts_with ''Infinity'' (c # cs) then Some (JFloat (Infinity False), drop 8 (c # cs))
          else if starts_with ''-Infinity'' (c # cs) then Some (JFloat (Infinity True), drop 9 (c # cs))
          else parse_number (c # cs))"
| "parse_items 0 s = None"
| "parse_items (Suc fuel) s =
     (case parse_value fuel s of
        None \<Rightarrow> None
      | Some (v, r) \<Rightarrow>
          (case skip_ws r of
             [] \<Rightarrow> None
           | c # cs \<Rightarrow>
               if c = CHR '']'' then Some ([v], cs)
               else if c = CHR '','' then push v (parse_items fuel cs)
               else None))"
| "parse_members 0 s = None"
| "parse_members (Suc fuel) s =
     (case skip_ws s of
        [] \<Rightarrow> None
      | q # s1 \<Rightarrow>
          if q \<noteq> CHR 0x22 then None
          else (case parse_chars s1 of
                  None \<Rightarrow> None
                | Some (k, s2) \<Rightarrow>
                    (case skip_ws s2 of
                       [] \<Rightarrow> None
                     | colon # s3 \<Rightarrow>
                         if colon \<noteq> CHR '':'' then None
                         else (case parse_value fuel s3 of
                                 None \<Rightarrow> None
                               | Some (v, r) \<Rightarrow>
                                   (case skip_ws r of
                                      [] \<Rightarrow> None
                                    | c # cs \<Rightarrow>
                                        if c = CHR ''}'' then Some ([(k, v)], cs)
                                        else if c = CHR '','' then push (k, v) (parse_members fuel cs)
                                        else None)))))"

definition json_loads :: "string \<Rightarrow> json option" where
  "json_loads s =
     (case parse_value (Suc (length s)) s of
        None \<Rightarrow> None
      | Some (v, r) \<Rightarrow> if skip_ws r = [] then Some v else None)"

text \<open>The lines of a text, each without its terminating newline.\<close>

fun lines_from :: "string \<Rightarrow> string \<Rightarrow> string list" where
  "lines_from cur [] = (if cur = [] then [] else [cur])"
| "lines_from cur (c # cs) =
     (if c = CHR 0x0A then cur # lines_from [] cs else lines_from (cur @ [c]) cs)"

definition split_lines :: "string \<Rightarrow> string list" where
  "split_lines text = lines_from [] text"

text \<open>Reading line by line: every line has to parse.\<close>

definition read_ndjson :: "string \<Rightarrow> json list option" where
  "read_ndjson text = those (map json_loads (split_lines text))"

text \<open>
  A Python dict holds each key once, and a finite float has one decimal that names it.
  In the embedding a dict is an association list and a finite float a sign, digits and
  a power of ten, so both invariants are stated: the keys of every dict of a value are
  distinct, and the digits of every finite float are not negative and end in no zero.
\<close>

fun float_canonical :: "pyfloat \<Rightarrow> bool" where
  "float_canonical (Finite neg m e) = (0 \<le> m \<and> (m = 0 \<longrightarrow> e = 0) \<and> (m \<noteq> 0 \<longrightarrow> m mod 10 \<noteq> 0))"
| "float_canonical x = True"

fun well_formed :: "json \<Rightarrow> bool"
  and well_formed_items :: "json list \<Rightarrow> bool"
  and well_formed_members :: "(string \<times> json) list \<Rightarrow> bool" where
  "well_formed (JFloat x) = float_canonical x"
| "well_formed (JList xs) = well_formed_items xs"
| "well_formed (JObj d) = (distinct (map fst d) \<and> well_formed_members d)"
| "well_formed v = True"
| "well_formed_items [] = True"
| "well_formed_items (x # xs) = (well_formed x \<and> well_formed_items xs)"
| "well_formed_members [] = True"
| "well_formed_members ((k, v) # ms) = (well_formed v \<and> well_formed_members ms)"

text \<open>The values that hold no NaN, at any depth.\<close>

fun nan_free :: "json \<Rightarrow> bool"
  and nan_free_items :: "json list \<Rightarrow> bool"
  and nan_free_members :: "(string \<times> json) list \<Rightarrow> bool" where
  "nan_free (JFloat x) = (x \<noteq> NaN)"
| "nan_free (JList xs) = nan_free_items xs"
| "nan_free (JObj d) = nan_free_members d"
| "nan_free v = True"
| "nan_free_items [] = True"
| "nan_free_items (x # xs) = (nan_free x \<and> nan_free_items xs)"
| "nan_free_members [] = True"
| "nan_free_members ((k, v) # ms) = (nan_free v \<and> nan_free_members ms)"

text \<open>
  Equality by field, as the round-trip property of the specification has it: two records
  are equal when they have the same fields in the same order with equal values, and two
  floats are equal as Python's \<^verbatim>\<open>==\<close> has it: a NaN equals nothing, itself included, and
  \<open>0.0\<close> equals \<open>-0.0\<close>. For two values of one shape this is what \<^verbatim>\<open>==\<close> gives.
\<close>

fun float_equal :: "pyfloat \<Rightarrow> pyfloat \<Rightarrow> bool" where
  "float_equal (Finite neg m e) (Finite neg' m' e') =
     ((m = 0 \<and> m' = 0) \<or> (neg = neg' \<and> m = m' \<and> e = e'))"
| "float_equal (Infinity neg) (Infinity neg') = (neg = neg')"
| "float_equal x y = False"

fun equal_by_field :: "json \<Rightarrow> json \<Rightarrow> bool"
  and equal_items :: "json list \<Rightarrow> json list \<Rightarrow> bool"
  and equal_members :: "(string \<times> json) list \<Rightarrow> (string \<times> json) list \<Rightarrow> bool" where
  "equal_by_field (JFloat x) (JFloat y) = float_equal x y"
| "equal_by_field (JList xs) (JList ys) = equal_items xs ys"
| "equal_by_field (JObj d) (JObj d') = equal_members d d'"
| "equal_by_field (JFloat x) v = False"
| "equal_by_field (JList xs) v = False"
| "equal_by_field (JObj d) v = False"
| "equal_by_field u v = (u = v)"
| "equal_items [] ys = (ys = [])"
| "equal_items (x # xs) [] = False"
| "equal_items (x # xs) (y # ys) = (equal_by_field x y \<and> equal_items xs ys)"
| "equal_members [] d' = (d' = [])"
| "equal_members ((k, v) # ms) [] = False"
| "equal_members ((k, v) # ms) ((k', v') # ms') =
     (k = k' \<and> equal_by_field v v' \<and> equal_members ms ms')"

text \<open>
  What may follow a serialized value in a serialized text, and the fuel a value needs:
  both are used to state the round trip of the reader on the serializer's output.
\<close>

definition delimited :: "string \<Rightarrow> bool" where
  "delimited rest \<longleftrightarrow>
     (case rest of [] \<Rightarrow> True
      | c # cs \<Rightarrow> c = CHR '','' \<or> c = CHR '']'' \<or> c = CHR ''}'' \<or> is_ws c)"

definition value_start :: "char \<Rightarrow> bool" where
  "value_start c \<longleftrightarrow> \<not> is_ws c \<and> c \<noteq> CHR '']'' \<and> c \<noteq> CHR ''}''"

fun need :: "json \<Rightarrow> nat"
  and need_items :: "json list \<Rightarrow> nat"
  and need_members :: "(string \<times> json) list \<Rightarrow> nat" where
  "need (JList xs) = Suc (need_items xs)"
| "need (JObj d) = Suc (need_members d)"
| "need v = 1"
| "need_items [] = 0"
| "need_items (x # xs) = Suc (need x + need_items xs)"
| "need_members [] = 0"
| "need_members ((k, v) # ms) = Suc (need v + need_members ms)"

text \<open>
  The row walk as the specification words it (section 4.2, step 5, and the Fact Row of
  section 3): every observation of every unit of every selected concept gives one row
  when it has a non-empty period marker, the period-end date when that is non-empty and
  the fiscal year otherwise, and no row when it has neither. Non-empty is what the code
  tests, Python's truth value. A missing field of a row is \<^verbatim>\<open>None\<close>.
\<close>

definition field_or_null :: "(string \<times> json) list \<Rightarrow> string \<Rightarrow> json" where
  "field_or_null ob k = (case map_of ob k of None \<Rightarrow> JNull | Some v \<Rightarrow> v)"

definition period_marker :: "(string \<times> json) list \<Rightarrow> json" where
  "period_marker ob =
     (if truthy (field_or_null ob ''end'') then field_or_null ob ''end''
      else field_or_null ob ''fy'')"

definition observation_rows ::
  "string \<Rightarrow> string \<Rightarrow> string \<Rightarrow> string \<Rightarrow> (string \<times> json) list \<Rightarrow> json list" where
  "observation_rows cik ticker concept unit ob =
     (if truthy (period_marker ob)
      then [JObj [(''cik'', JStr cik), (''ticker'', JStr ticker), (''concept'', JStr concept),
                  (''unit'', JStr unit), (''period_end_date'', period_marker ob),
                  (''val'', field_or_null ob ''val''), (''accn'', field_or_null ob ''accn''),
                  (''fy'', field_or_null ob ''fy''), (''fp'', field_or_null ob ''fp''),
                  (''form'', field_or_null ob ''form''), (''filed'', field_or_null ob ''filed'')]]
      else [])"

fun members :: "json \<Rightarrow> (string \<times> json) list" where
  "members (JObj d) = d"
| "members _ = []"

fun elements :: "json \<Rightarrow> json list" where
  "elements (JList xs) = xs"
| "elements _ = []"

fun is_list :: "json \<Rightarrow> bool" where
  "is_list (JList xs) = True"
| "is_list _ = False"

definition document_rows :: "string \<Rightarrow> string \<Rightarrow> string list \<Rightarrow> (string \<times> json) list \<Rightarrow> json list" where
  "document_rows cik ticker concepts all_facts =
     [row. (namespace, namespace_facts) \<leftarrow> all_facts,
           (fact_name, body) \<leftarrow> members namespace_facts,
           namespace @ '':'' @ fact_name \<in> set concepts,
           (unit, arr) \<leftarrow> members (field_or_null (members body) ''units''),
           ob \<leftarrow> elements arr,
           row \<leftarrow> observation_rows cik ticker (namespace @ '':'' @ fact_name) unit (members ob)]"

text \<open>
  The documents on which the walk raises nothing: every selected concept has a mapping
  as its body, whose \<^verbatim>\<open>units\<close>, when there, is a mapping from units to lists of mappings.
\<close>

definition body_shaped :: "json \<Rightarrow> bool" where
  "body_shaped body \<longleftrightarrow>
     is_dict body \<and>
     (map_of (members body) ''units'' = None \<or>
      is_dict (field_or_null (members body) ''units'')) \<and>
     (\<forall>(unit, arr) \<in> set (members (field_or_null (members body) ''units'')).
        is_list arr \<and> (\<forall>ob \<in> set (elements arr). is_dict ob))"

definition well_shaped :: "string list \<Rightarrow> (string \<times> json) list \<Rightarrow> bool" where
  "well_shaped concepts all_facts \<longleftrightarrow>
     (\<forall>(namespace, namespace_facts) \<in> set all_facts.
        \<forall>(fact_name, body) \<in> set (members namespace_facts).
          namespace @ '':'' @ fact_name \<in> set concepts \<longrightarrow> body_shaped body)"

section \<open>Properties of the row-collecting loop and of the substring test\<close>

lemma collect_cong: "(\<And>x. x \<in> set xs \<Longrightarrow> f x = g x) \<Longrightarrow> collect f xs = collect g xs"
  by (induction xs) (auto split: sum.splits)

lemma collect_skip:
  "(\<And>x. x \<in> set xs \<Longrightarrow> \<not> P x \<Longrightarrow> f x = Inr []) \<Longrightarrow> collect f (filter P xs) = collect f xs"
  by (induction xs) (auto split: sum.splits)

lemma collect_all_empty: "(\<And>x. x \<in> set xs \<Longrightarrow> f x = Inr []) \<Longrightarrow> collect f xs = Inr []"
  by (induction xs) (auto split: sum.splits)

lemma collect_rows:
  "collect f xs = Inr rows \<Longrightarrow> r \<in> set rows \<Longrightarrow> \<exists>x\<in>set xs. \<exists>ys. f x = Inr ys \<and> r \<in> set ys"
  by (induction xs arbitrary: rows) (auto split: sum.splits)

lemma collect_total:
  "(\<And>x. x \<in> set xs \<Longrightarrow> f x = Inr (g x)) \<Longrightarrow> collect f xs = Inr (concat (map g xs))"
  by (induction xs) (auto split: sum.splits)

lemma starts_with_iff: "starts_with t s \<longleftrightarrow> (\<exists>post. s = t @ post)"
  by (induction t s rule: starts_with.induct) auto

lemma is_substring_iff: "is_substring t s \<longleftrightarrow> (\<exists>pre post. s = pre @ t @ post)"
proof (induction s)
  case Nil
  then show ?case by auto
next
  case (Cons c cs)
  show ?case
  proof
    assume "is_substring t (c # cs)"
    then consider "starts_with t (c # cs)" | "is_substring t cs" by auto
    then show "\<exists>pre post. c # cs = pre @ t @ post"
    proof cases
      case 1
      then obtain post where "c # cs = t @ post" by (auto simp: starts_with_iff)
      then have "c # cs = [] @ t @ post" by simp
      then show ?thesis by blast
    next
      case 2
      then obtain pre post where "cs = pre @ t @ post" using Cons.IH by blast
      then have "c # cs = (c # pre) @ t @ post" by simp
      then show ?thesis by blast
    qed
  next
    assume "\<exists>pre post. c # cs = pre @ t @ post"
    then obtain pre post where eq: "c # cs = pre @ t @ post" by blast
    show "is_substring t (c # cs)"
    proof (cases pre)
      case Nil
      then have "starts_with t (c # cs)" using eq by (auto simp: starts_with_iff)
      then show ?thesis by simp
    next
      case (Cons p ps)
      then have "cs = ps @ t @ post" using eq by simp
      then have "is_substring t cs" using Cons.IH by blast
      then show ?thesis by simp
    qed
  qed
qed

lemma contains_ignoring_case_code: "contains_ignoring_case t c = is_substring t (lower c)"
  by (simp add: contains_ignoring_case_def is_substring_iff)

lemma matches_any_two:
  "matches_any [a, b] = (\<lambda>c. contains_ignoring_case a c \<or> contains_ignoring_case b c)"
  by (rule ext) (simp add: matches_any_def contains_ignoring_case_code)

section \<open>The concept selection policy\<close>

lemma concept_available:
  "(namespace, JObj namespace_facts) \<in> set all_facts \<Longrightarrow> fb \<in> set namespace_facts \<Longrightarrow>
   concept_name namespace (fst fb) \<in> set (available_concepts all_facts)"
  by (force simp: available_concepts_def)

lemma emit_concept_agree:
  "(concept_name namespace (fst fb) \<in> set cs \<longleftrightarrow> concept_name namespace (fst fb) \<in> set cs') \<Longrightarrow>
   emit_concept cs cik ticker namespace fb = emit_concept cs' cik ticker namespace fb"
  by (simp add: emit_concept_def Let_def)

lemma emit_namespace_agree:
  assumes "ns \<in> set all_facts"
    and "\<And>c. c \<in> set (available_concepts all_facts) \<Longrightarrow> c \<in> set cs \<longleftrightarrow> c \<in> set cs'"
  shows "emit_namespace cs cik ticker ns = emit_namespace cs' cik ticker ns"
proof (cases ns)
  case (Pair namespace body)
  show ?thesis
  proof (cases body)
    case (JObj namespace_facts)
    have "collect (emit_concept cs cik ticker namespace) namespace_facts =
          collect (emit_concept cs' cik ticker namespace) namespace_facts"
    proof (rule collect_cong)
      fix fb assume "fb \<in> set namespace_facts"
      then have "concept_name namespace (fst fb) \<in> set (available_concepts all_facts)"
        using assms(1) Pair JObj concept_available by blast
      then show "emit_concept cs cik ticker namespace fb = emit_concept cs' cik ticker namespace fb"
        using assms(2) emit_concept_agree by blast
    qed
    then show ?thesis using Pair JObj by simp
  qed (simp_all add: Pair)
qed

lemma walk_agree:
  assumes "\<And>c. c \<in> set (available_concepts all_facts) \<Longrightarrow> c \<in> set cs \<longleftrightarrow> c \<in> set cs'"
  shows "collect (emit_namespace cs cik ticker) all_facts =
         collect (emit_namespace cs' cik ticker) all_facts"
  by (rule collect_cong) (rule emit_namespace_agree, assumption, rule assms)

text \<open>
  Claim C1. When at least one of the six preferred concepts is among the available
  concepts of a document, the concept list the normalizer filters by is the preferred
  list itself. The preferred concepts that the document lacks contribute nothing: the
  row walk with the whole preferred list returns what the walk with only the available
  preferred concepts returns, rows and exceptions alike.
\<close>

theorem preferred_concepts_when_one_is_available:
  assumes "\<exists>c\<in>set preferred. c \<in> set (available_concepts all_facts)"
  shows "effective_concepts all_facts = preferred \<and>
         collect (emit_namespace (effective_concepts all_facts) cik ticker) all_facts =
         collect (emit_namespace
                    (filter (\<lambda>c. c \<in> set (available_concepts all_facts)) preferred) cik ticker)
                 all_facts"
proof -
  have "filter (\<lambda>c. c \<in> set (available_concepts all_facts)) preferred \<noteq> []"
    using assms by (simp add: filter_empty_conv)
  then have eff: "effective_concepts all_facts = preferred"
    by (simp add: effective_concepts_def Let_def)
  have "collect (emit_namespace preferred cik ticker) all_facts =
        collect (emit_namespace
                   (filter (\<lambda>c. c \<in> set (available_concepts all_facts)) preferred) cik ticker)
                all_facts"
    by (rule walk_agree) simp
  with eff show ?thesis by simp
qed

theorem preferred_concepts_when_one_is_available_witness:
  "(\<exists>c\<in>set preferred. c \<in> set (available_concepts
       [(''us-gaap'', JObj [(''Revenues'', JObj [(''units'', JObj [(''USD'',
          JList [JObj [(''end'', JStr ''2023-12-31''), (''val'', JInt 1000000)]])])])])])) \<and>
   (effective_concepts
       [(''us-gaap'', JObj [(''Revenues'', JObj [(''units'', JObj [(''USD'',
          JList [JObj [(''end'', JStr ''2023-12-31''), (''val'', JInt 1000000)]])])])])]
     = preferred \<and>
    collect (emit_namespace (effective_concepts
       [(''us-gaap'', JObj [(''Revenues'', JObj [(''units'', JObj [(''USD'',
          JList [JObj [(''end'', JStr ''2023-12-31''), (''val'', JInt 1000000)]])])])])])
          ''0000320193'' ''AAPL'')
       [(''us-gaap'', JObj [(''Revenues'', JObj [(''units'', JObj [(''USD'',
          JList [JObj [(''end'', JStr ''2023-12-31''), (''val'', JInt 1000000)]])])])])]
     = collect (emit_namespace (filter (\<lambda>c. c \<in> set (available_concepts
       [(''us-gaap'', JObj [(''Revenues'', JObj [(''units'', JObj [(''USD'',
          JList [JObj [(''end'', JStr ''2023-12-31''), (''val'', JInt 1000000)]])])])])]))
          preferred) ''0000320193'' ''AAPL'')
       [(''us-gaap'', JObj [(''Revenues'', JObj [(''units'', JObj [(''USD'',
          JList [JObj [(''end'', JStr ''2023-12-31''), (''val'', JInt 1000000)]])])])])]) \<and>
   filter (\<lambda>c. c \<in> set (available_concepts
       [(''us-gaap'', JObj [(''Revenues'', JObj [(''units'', JObj [(''USD'',
          JList [JObj [(''end'', JStr ''2023-12-31''), (''val'', JInt 1000000)]])])])])]))
          preferred = [''us-gaap:Revenues'']"
proof -
  let ?doc = "[(''us-gaap'', JObj [(''Revenues'', JObj [(''units'', JObj [(''USD'',
          JList [JObj [(''end'', JStr ''2023-12-31''), (''val'', JInt 1000000)]])])])])]"
  have h: "\<exists>c\<in>set preferred. c \<in> set (available_concepts ?doc)"
    by (simp add: preferred_def available_concepts_def concept_name_def)
  have f: "filter (\<lambda>c. c \<in> set (available_concepts ?doc)) preferred = [''us-gaap:Revenues'']"
    by (simp add: preferred_def available_concepts_def concept_name_def)
  show ?thesis
    using h preferred_concepts_when_one_is_available[OF h, of "''0000320193''" "''AAPL''"] f
    by blast
qed

text \<open>
  Claim C2. When none of the preferred concepts is available, the concept list is made of
  the first two available concepts whose name contains, ignoring case, "revenue" or
  "sales", followed by the first two whose name contains "income" or "earnings", both
  in the iteration order of the document; when no concept matches, it is the first five
  available concepts.
\<close>

theorem fallback_concepts_when_none_is_available:
  assumes "\<forall>c\<in>set preferred. c \<notin> set (available_concepts all_facts)"
  shows "effective_concepts all_facts =
     (let available = available_concepts all_facts;
          fallback =
            take 2 (filter (\<lambda>c. contains_ignoring_case ''revenue'' c \<or>
                                contains_ignoring_case ''sales'' c) available) @
            take 2 (filter (\<lambda>c. contains_ignoring_case ''income'' c \<or>
                                contains_ignoring_case ''earnings'' c) available)
      in if fallback = [] then take 5 available else fallback)"
proof -
  have "filter (\<lambda>c. c \<in> set (available_concepts all_facts)) preferred = []"
    using assms by (simp add: filter_empty_conv)
  then show ?thesis
    by (simp add: effective_concepts_def Let_def matches_any_two)
qed

theorem fallback_concepts_when_none_is_available_witness:
  "\<not> (\<exists>c\<in>set preferred. c \<in> set (available_concepts
       [(''acme'', JObj [(''Assets'', JNull), (''TotalSALES'', JNull), (''NetIncome'', JNull),
                         (''SalesTax'', JNull), (''RevenueOther'', JNull)])])) \<and>
   effective_concepts
       [(''acme'', JObj [(''Assets'', JNull), (''TotalSALES'', JNull), (''NetIncome'', JNull),
                         (''SalesTax'', JNull), (''RevenueOther'', JNull)])] =
     (let available = available_concepts
            [(''acme'', JObj [(''Assets'', JNull), (''TotalSALES'', JNull), (''NetIncome'', JNull),
                              (''SalesTax'', JNull), (''RevenueOther'', JNull)])];
          fallback =
            take 2 (filter (\<lambda>c. contains_ignoring_case ''revenue'' c \<or>
                                contains_ignoring_case ''sales'' c) available) @
            take 2 (filter (\<lambda>c. contains_ignoring_case ''income'' c \<or>
                                contains_ignoring_case ''earnings'' c) available)
      in if fallback = [] then take 5 available else fallback) \<and>
   effective_concepts
       [(''acme'', JObj [(''Assets'', JNull), (''TotalSALES'', JNull), (''NetIncome'', JNull),
                         (''SalesTax'', JNull), (''RevenueOther'', JNull)])] =
     [''acme:TotalSALES'', ''acme:SalesTax'', ''acme:NetIncome'']"
proof -
  let ?doc = "[(''acme'', JObj [(''Assets'', JNull), (''TotalSALES'', JNull),
                  (''NetIncome'', JNull), (''SalesTax'', JNull), (''RevenueOther'', JNull)])]"
  have h: "\<forall>c\<in>set preferred. c \<notin> set (available_concepts ?doc)"
    by (simp add: preferred_def available_concepts_def concept_name_def)
  have v: "effective_concepts ?doc = [''acme:TotalSALES'', ''acme:SalesTax'', ''acme:NetIncome'']"
    by code_simp
  show ?thesis
    using h fallback_concepts_when_none_is_available[OF h] v by blast
qed

section \<open>Observations, rows and the shape of the document\<close>

lemma emit_observation_spec:
  "emit_observation cik ticker concept unit (JObj ob) =
     Inr (observation_rows cik ticker concept unit ob)"
  by (simp add: Let_def py_or_def fact_row_def dict_get_def observation_rows_def
      period_marker_def field_or_null_def)

lemma emit_unit_spec:
  assumes "is_list arr" and "\<forall>ob \<in> set (elements arr). is_dict ob"
  shows "emit_unit cik ticker concept (unit, arr) =
         Inr (concat (map (\<lambda>ob. observation_rows cik ticker concept unit (members ob))
                (elements arr)))"
proof -
  obtain xs where arr: "arr = JList xs" using assms(1) by (cases arr) auto
  have "collect (emit_observation cik ticker concept unit) xs =
        Inr (concat (map (\<lambda>ob. observation_rows cik ticker concept unit (members ob)) xs))"
  proof (rule collect_total)
    fix x assume "x \<in> set xs"
    then have "is_dict x" using assms(2) arr by simp
    then obtain ob where "x = JObj ob" by (cases x) auto
    then show "emit_observation cik ticker concept unit x =
               Inr (observation_rows cik ticker concept unit (members x))"
      by (simp add: emit_observation_spec del: emit_observation.simps)
  qed
  then show ?thesis by (simp add: emit_unit_def arr)
qed

lemma emit_concept_spec:
  assumes "concept_name namespace fact_name \<in> set concepts \<longrightarrow>
            body_shaped body"
  shows "emit_concept concepts cik ticker namespace (fact_name, body) =
         Inr (if concept_name namespace fact_name \<in> set concepts
              then concat (map (\<lambda>(unit, arr).
                     concat (map (\<lambda>ob. observation_rows cik ticker
                                     (concept_name namespace fact_name) unit (members ob))
                               (elements arr)))
                   (members (field_or_null (members body) ''units'')))
              else [])"
proof (cases "concept_name namespace fact_name \<in> set concepts")
  case False
  then show ?thesis by (simp add: emit_concept_def)
next
  case True
  with assms have shaped: "body_shaped body" by simp
  then obtain b where body: "body = JObj b" by (cases body) (auto simp: body_shaped_def)
  let ?units = "members (field_or_null b ''units'')"
  have items: "bind_items = Inr ?units"
    if "bind_items = (case py_get body ''units'' (JObj []) of Inl e \<Rightarrow> Inl e
                      | Inr us \<Rightarrow> py_items us)" for bind_items
  proof (cases "map_of b ''units''")
    case None
    then show ?thesis using that by (simp add: body dict_get_def field_or_null_def)
  next
    case (Some us)
    then have "is_dict us" using shaped body by (simp add: body_shaped_def field_or_null_def)
    then obtain u where "us = JObj u" by (cases us) auto
    then show ?thesis using that Some by (simp add: body dict_get_def field_or_null_def)
  qed
  have walk: "collect (emit_unit cik ticker (concept_name namespace fact_name)) ?units =
        Inr (concat (map (\<lambda>(unit, arr).
                     concat (map (\<lambda>ob. observation_rows cik ticker
                                     (concept_name namespace fact_name) unit (members ob))
                               (elements arr))) ?units))"
  proof (rule collect_total)
    fix ua assume m: "ua \<in> set ?units"
    obtain unit arr where ua: "ua = (unit, arr)" by (cases ua)
    have "\<forall>(unit, arr) \<in> set ?units. is_list arr \<and> (\<forall>ob \<in> set (elements arr). is_dict ob)"
      using shaped body by (simp add: body_shaped_def)
    from bspec[OF this m] have "is_list arr \<and> (\<forall>ob \<in> set (elements arr). is_dict ob)"
      by (simp add: ua)
    then show "emit_unit cik ticker (concept_name namespace fact_name) ua =
          Inr (case ua of (unit, arr) \<Rightarrow>
                 concat (map (\<lambda>ob. observation_rows cik ticker
                                     (concept_name namespace fact_name) unit (members ob))
                               (elements arr)))"
      using emit_unit_spec[of arr cik ticker "concept_name namespace fact_name" unit]
      by (simp add: ua)
  qed
  show ?thesis
    using True items[OF refl] walk
    by (simp add: emit_concept_def body split: sum.splits)
qed

lemma emit_namespace_spec:
  assumes "\<forall>(fact_name, body) \<in> set (members namespace_facts).
          concept_name namespace fact_name \<in> set concepts \<longrightarrow>
            body_shaped body"
  shows "emit_namespace concepts cik ticker (namespace, namespace_facts) =
         Inr (concat (map (\<lambda>(fact_name, body).
                if concept_name namespace fact_name \<in> set concepts
                then concat (map (\<lambda>(unit, arr).
                       concat (map (\<lambda>ob. observation_rows cik ticker
                                       (concept_name namespace fact_name) unit (members ob))
                                 (elements arr)))
                     (members (field_or_null (members body) ''units'')))
                else [])
              (members namespace_facts)))"
proof (cases "is_dict namespace_facts")
  case False
  then show ?thesis by (cases namespace_facts) auto
next
  case True
  then obtain nf where nf: "namespace_facts = JObj nf" by (cases namespace_facts) auto
  have "collect (emit_concept concepts cik ticker namespace) nf =
        Inr (concat (map (\<lambda>(fact_name, body).
                if concept_name namespace fact_name \<in> set concepts
                then concat (map (\<lambda>(unit, arr).
                       concat (map (\<lambda>ob. observation_rows cik ticker
                                       (concept_name namespace fact_name) unit (members ob))
                                 (elements arr)))
                     (members (field_or_null (members body) ''units'')))
                else []) nf))"
  proof (rule collect_total)
    fix fb assume m: "fb \<in> set nf"
    obtain fact_name body where fb: "fb = (fact_name, body)" by (cases fb)
    show "emit_concept concepts cik ticker namespace fb =
          Inr (case fb of (fact_name, body) \<Rightarrow>
                if concept_name namespace fact_name \<in> set concepts
                then concat (map (\<lambda>(unit, arr).
                       concat (map (\<lambda>ob. observation_rows cik ticker
                                       (concept_name namespace fact_name) unit (members ob))
                                 (elements arr)))
                     (members (field_or_null (members body) ''units'')))
                else [])"
      unfolding fb prod.case
    proof (rule emit_concept_spec)
      from bspec[OF assms, of fb] m nf fb
      show "concept_name namespace fact_name \<in> set concepts \<longrightarrow> body_shaped body" by simp
    qed
  qed
  then show ?thesis by (simp add: nf)
qed

text \<open>
  Claim C3. On a document whose selected concepts are well shaped, the normalizer
  raises nothing and returns exactly the rows of the walk: in the order of the
  document, for every observation of every unit of every selected concept, one row
  whose period marker is the observation's period-end date when that is non-empty, one
  row whose period marker is its fiscal year when only that is non-empty, and no row
  when neither is.
\<close>

theorem one_row_per_observation_with_period:
  assumes "map_of d ''facts'' = Some (JObj all_facts)"
    and "well_shaped (effective_concepts all_facts) all_facts"
  shows "normalize_companyfacts cik ticker (JObj d) =
         Inr (document_rows cik ticker (effective_concepts all_facts) all_facts)"
proof -
  let ?concepts = "effective_concepts all_facts"
  have "collect (emit_namespace ?concepts cik ticker) all_facts =
        Inr (concat (map (\<lambda>(namespace, namespace_facts).
               concat (map (\<lambda>(fact_name, body).
                if concept_name namespace fact_name \<in> set ?concepts
                then concat (map (\<lambda>(unit, arr).
                       concat (map (\<lambda>ob. observation_rows cik ticker
                                       (concept_name namespace fact_name) unit (members ob))
                                 (elements arr)))
                     (members (field_or_null (members body) ''units'')))
                else [])
              (members namespace_facts))) all_facts))"
  proof (rule collect_total)
    fix ns assume m: "ns \<in> set all_facts"
    obtain namespace namespace_facts where ns: "ns = (namespace, namespace_facts)" by (cases ns)
    show "emit_namespace ?concepts cik ticker ns =
          Inr (case ns of (namespace, namespace_facts) \<Rightarrow>
               concat (map (\<lambda>(fact_name, body).
                if concept_name namespace fact_name \<in> set ?concepts
                then concat (map (\<lambda>(unit, arr).
                       concat (map (\<lambda>ob. observation_rows cik ticker
                                       (concept_name namespace fact_name) unit (members ob))
                                 (elements arr)))
                     (members (field_or_null (members body) ''units'')))
                else [])
              (members namespace_facts)))"
      unfolding ns prod.case
    proof (rule emit_namespace_spec)
      from assms(2) have "\<forall>(namespace, namespace_facts) \<in> set all_facts.
        \<forall>(fact_name, body) \<in> set (members namespace_facts).
          concept_name namespace fact_name \<in> set ?concepts \<longrightarrow> body_shaped body"
        by (simp add: well_shaped_def concept_name_def)
      from bspec[OF this m] show "\<forall>(fact_name, body) \<in> set (members namespace_facts).
          concept_name namespace fact_name \<in> set ?concepts \<longrightarrow> body_shaped body"
        by (simp add: ns)
    qed
  qed
  then have walk: "collect (emit_namespace ?concepts cik ticker) all_facts =
        Inr (document_rows cik ticker ?concepts all_facts)"
    by (simp add: document_rows_def concept_name_def cong: if_cong)
  show ?thesis
  proof (cases "all_facts = []")
    case True
    then show ?thesis
      using assms(1) by (simp add: normalize_companyfacts_def dict_get_def document_rows_def)
  next
    case False
    then show ?thesis
      using assms(1) walk by (simp add: normalize_companyfacts_def dict_get_def)
  qed
qed

theorem one_row_per_observation_with_period_witness:
  "normalize_companyfacts ''0000320193'' ''AAPL''
     (JObj [(''cik'', JInt 320193),
            (''facts'', JObj
               [(''dei'', JStr ''n/a''),
                (''us-gaap'', JObj
                   [(''Revenues'', JObj
                       [(''label'', JStr ''Revenues''),
                        (''units'', JObj
                           [(''USD'', JList
                               [JObj [(''end'', JStr ''2023-12-31''), (''fy'', JInt 2023),
                                      (''val'', JInt 1000000)],
                                JObj [(''val'', JInt 7)],
                                JObj [(''fy'', JInt 2022), (''val'', JInt 5)],
                                JObj [(''end'', JStr []), (''fy'', JInt 0)]]),
                            (''EUR'', JList
                               [JObj [(''end'', JStr ''2022-12-31''), (''form'', JStr ''10-K'')]])])]),
                    (''Assets'', JNull)])])]) =
   Inr [JObj [(''cik'', JStr ''0000320193''), (''ticker'', JStr ''AAPL''),
              (''concept'', JStr ''us-gaap:Revenues''), (''unit'', JStr ''USD''),
              (''period_end_date'', JStr ''2023-12-31''), (''val'', JInt 1000000),
              (''accn'', JNull), (''fy'', JInt 2023), (''fp'', JNull), (''form'', JNull),
              (''filed'', JNull)],
        JObj [(''cik'', JStr ''0000320193''), (''ticker'', JStr ''AAPL''),
              (''concept'', JStr ''us-gaap:Revenues''), (''unit'', JStr ''USD''),
              (''period_end_date'', JInt 2022), (''val'', JInt 5),
              (''accn'', JNull), (''fy'', JInt 2022), (''fp'', JNull), (''form'', JNull),
              (''filed'', JNull)],
        JObj [(''cik'', JStr ''0000320193''), (''ticker'', JStr ''AAPL''),
              (''concept'', JStr ''us-gaap:Revenues''), (''unit'', JStr ''EUR''),
              (''period_end_date'', JStr ''2022-12-31''), (''val'', JNull),
              (''accn'', JNull), (''fy'', JNull), (''fp'', JNull), (''form'', JStr ''10-K''),
              (''filed'', JNull)]]"
proof -
  let ?all = "[(''dei'', JStr ''n/a''),
                (''us-gaap'', JObj
                   [(''Revenues'', JObj
                       [(''label'', JStr ''Revenues''),
                        (''units'', JObj
                           [(''USD'', JList
                               [JObj [(''end'', JStr ''2023-12-31''), (''fy'', JInt 2023),
                                      (''val'', JInt 1000000)],
                                JObj [(''val'', JInt 7)],
                                JObj [(''fy'', JInt 2022), (''val'', JInt 5)],
                                JObj [(''end'', JStr []), (''fy'', JInt 0)]]),
                            (''EUR'', JList
                               [JObj [(''end'', JStr ''2022-12-31''), (''form'', JStr ''10-K'')]])])]),
                    (''Assets'', JNull)])]"
  have h1: "map_of [(''cik'', JInt 320193), (''facts'', JObj ?all)] ''facts'' = Some (JObj ?all)"
    by simp
  have h2: "well_shaped (effective_concepts ?all) ?all"
    by code_simp
  have v: "document_rows ''0000320193'' ''AAPL'' (effective_concepts ?all) ?all =
     [JObj [(''cik'', JStr ''0000320193''), (''ticker'', JStr ''AAPL''),
              (''concept'', JStr ''us-gaap:Revenues''), (''unit'', JStr ''USD''),
              (''period_end_date'', JStr ''2023-12-31''), (''val'', JInt 1000000),
              (''accn'', JNull), (''fy'', JInt 2023), (''fp'', JNull), (''form'', JNull),
              (''filed'', JNull)],
        JObj [(''cik'', JStr ''0000320193''), (''ticker'', JStr ''AAPL''),
              (''concept'', JStr ''us-gaap:Revenues''), (''unit'', JStr ''USD''),
              (''period_end_date'', JInt 2022), (''val'', JInt 5),
              (''accn'', JNull), (''fy'', JInt 2022), (''fp'', JNull), (''form'', JNull),
              (''filed'', JNull)],
        JObj [(''cik'', JStr ''0000320193''), (''ticker'', JStr ''AAPL''),
              (''concept'', JStr ''us-gaap:Revenues''), (''unit'', JStr ''EUR''),
              (''period_end_date'', JStr ''2022-12-31''), (''val'', JNull),
              (''accn'', JNull), (''fy'', JNull), (''fp'', JNull), (''form'', JStr ''10-K''),
              (''filed'', JNull)]]"
    by code_simp
  show ?thesis
    using one_row_per_observation_with_period[OF h1 h2, of "''0000320193''" "''AAPL''"]
    unfolding v .
qed

text \<open>
  Claim C4. A fact document without the \<^verbatim>\<open>facts\<close> key, or whose \<^verbatim>\<open>facts\<close> mapping is
  empty, normalizes to the empty list of rows and raises nothing; the empty document
  \<^verbatim>\<open>{}\<close> is the case \<open>d = []\<close>.
\<close>

theorem no_namespaces_no_rows:
  assumes "map_of d ''facts'' = None \<or> map_of d ''facts'' = Some (JObj [])"
  shows "normalize_companyfacts cik ticker (JObj d) = Inr []"
  using assms by (auto simp: normalize_companyfacts_def dict_get_def)

theorem no_namespaces_no_rows_witness:
  "normalize_companyfacts ''0000320193'' ''AAPL'' (JObj []) = Inr [] \<and>
   normalize_companyfacts ''0000320193'' ''AAPL'' (JObj [(''cik'', JInt 320193), (''facts'', JObj [])])
     = Inr []"
proof -
  have a: "map_of ([] :: (string \<times> json) list) ''facts'' = None \<or>
           map_of ([] :: (string \<times> json) list) ''facts'' = Some (JObj [])"
    by simp
  have b: "map_of [(''cik'', JInt 320193), (''facts'', JObj [])] ''facts'' = None \<or>
           map_of [(''cik'', JInt 320193), (''facts'', JObj [])] ''facts'' = Some (JObj [])"
    by simp
  show ?thesis
    using no_namespaces_no_rows[OF a] no_namespaces_no_rows[OF b] by blast
qed

lemma emit_observation_rows:
  "emit_observation cik ticker concept unit ob = Inr rs \<Longrightarrow> r \<in> set rs \<Longrightarrow>
   py_get r ''concept'' JNull = Inr (JStr concept)"
  by (cases ob) (auto simp: Let_def fact_row_def dict_get_def split: if_splits)

lemma emit_unit_rows:
  "emit_unit cik ticker concept ua = Inr rs \<Longrightarrow> r \<in> set rs \<Longrightarrow>
   py_get r ''concept'' JNull = Inr (JStr concept)"
  unfolding emit_unit_def
  by (auto split: sum.splits dest!: collect_rows dest: emit_observation_rows)

lemma emit_concept_rows:
  "emit_concept cs cik ticker namespace fb = Inr rs \<Longrightarrow> r \<in> set rs \<Longrightarrow>
   \<exists>c\<in>set cs. py_get r ''concept'' JNull = Inr (JStr c)"
  unfolding emit_concept_def Let_def
  by (auto split: sum.splits if_splits dest!: collect_rows dest: emit_unit_rows)

lemma emit_namespace_rows:
  "emit_namespace cs cik ticker ns = Inr rs \<Longrightarrow> r \<in> set rs \<Longrightarrow>
   \<exists>c\<in>set cs. py_get r ''concept'' JNull = Inr (JStr c)"
proof (cases ns)
  case (Pair namespace body)
  assume a: "emit_namespace cs cik ticker ns = Inr rs" "r \<in> set rs"
  show ?thesis
  proof (cases body)
    case (JObj namespace_facts)
    with a Pair show ?thesis
      by (auto dest!: collect_rows dest: emit_concept_rows)
  qed (use a Pair in auto)
qed

text \<open>
  Claim C5. Every row the normalizer returns carries, in its \<^verbatim>\<open>concept\<close> field, a
  \<^verbatim>\<open>namespace:name\<close> composite that belongs to the concept list selected for the
  document.
\<close>

theorem row_concept_in_effective_concepts:
  assumes "py_get facts ''facts'' (JObj []) = Inr (JObj all_facts)"
    and "normalize_companyfacts cik ticker facts = Inr rows"
    and "row \<in> set rows"
  shows "\<exists>c\<in>set (effective_concepts all_facts). py_get row ''concept'' JNull = Inr (JStr c)"
proof (cases "all_facts = []")
  case True
  with assms show ?thesis by (simp add: normalize_companyfacts_def)
next
  case False
  with assms(1,2) have
    "collect (emit_namespace (effective_concepts all_facts) cik ticker) all_facts = Inr rows"
    by (simp add: normalize_companyfacts_def)
  from collect_rows[OF this assms(3)] show ?thesis
    by (auto dest: emit_namespace_rows)
qed

theorem row_concept_in_effective_concepts_witness:
  "normalize_companyfacts ''0000320193'' ''AAPL''
     (JObj [(''facts'', JObj [(''us-gaap'', JObj [(''Revenues'', JObj [(''units'', JObj
        [(''USD'', JList [JObj [(''end'', JStr ''2023-12-31''), (''val'', JInt 1000000)]])])]),
         (''Assets'', JObj [(''units'', JObj
        [(''USD'', JList [JObj [(''end'', JStr ''2023-12-31''), (''val'', JInt 9)]])])])])])]) =
   Inr [fact_row ''0000320193'' ''AAPL'' ''us-gaap:Revenues'' ''USD'' (JStr ''2023-12-31'')
          [(''end'', JStr ''2023-12-31''), (''val'', JInt 1000000)]] \<and>
   (\<exists>c\<in>set (effective_concepts [(''us-gaap'', JObj [(''Revenues'', JObj [(''units'', JObj
        [(''USD'', JList [JObj [(''end'', JStr ''2023-12-31''), (''val'', JInt 1000000)]])])]),
         (''Assets'', JObj [(''units'', JObj
        [(''USD'', JList [JObj [(''end'', JStr ''2023-12-31''), (''val'', JInt 9)]])])])])]).
      py_get (fact_row ''0000320193'' ''AAPL'' ''us-gaap:Revenues'' ''USD'' (JStr ''2023-12-31'')
          [(''end'', JStr ''2023-12-31''), (''val'', JInt 1000000)]) ''concept'' JNull =
      Inr (JStr c))"
proof -
  let ?ns = "[(''us-gaap'', JObj [(''Revenues'', JObj [(''units'', JObj
        [(''USD'', JList [JObj [(''end'', JStr ''2023-12-31''), (''val'', JInt 1000000)]])])]),
         (''Assets'', JObj [(''units'', JObj
        [(''USD'', JList [JObj [(''end'', JStr ''2023-12-31''), (''val'', JInt 9)]])])])])]"
  let ?row = "fact_row ''0000320193'' ''AAPL'' ''us-gaap:Revenues'' ''USD'' (JStr ''2023-12-31'')
          [(''end'', JStr ''2023-12-31''), (''val'', JInt 1000000)]"
  have h1: "py_get (JObj [(''facts'', JObj ?ns)]) ''facts'' (JObj []) = Inr (JObj ?ns)"
    by (simp add: dict_get_def)
  have h2: "normalize_companyfacts ''0000320193'' ''AAPL'' (JObj [(''facts'', JObj ?ns)]) =
            Inr [?row]"
    by code_simp
  have h3: "?row \<in> set [?row]" by simp
  show ?thesis
    using h2 row_concept_in_effective_concepts[OF h1 h2 h3] by blast
qed

lemma available_concepts_dicts:
  "available_concepts (filter (\<lambda>ns. is_dict (snd ns)) all_facts) = available_concepts all_facts"
proof (induction all_facts)
  case Nil
  show ?case by simp
next
  case (Cons ns nss)
  obtain namespace body where ns: "ns = (namespace, body)" by (cases ns)
  show ?case using Cons ns by (cases body) (simp_all add: available_concepts_def)
qed

lemma emit_namespace_not_dict: "\<not> is_dict (snd ns) \<Longrightarrow> emit_namespace cs cik ticker ns = Inr []"
  by (cases ns, cases "snd ns") auto

text \<open>
  Claim C10. A namespace whose body is not a dict is passed over by both loops. Deleting
  every such namespace from the document changes neither the available concepts nor the
  result of the normalizer (its rows, or the exception it raises); a document all of whose
  namespaces have such a body normalizes to the empty list.
\<close>

theorem non_dict_namespaces_are_skipped:
  assumes "map_of d ''facts'' = Some (JObj all_facts)"
    and "map_of d' ''facts'' = Some (JObj (filter (\<lambda>ns. is_dict (snd ns)) all_facts))"
  shows "available_concepts (filter (\<lambda>ns. is_dict (snd ns)) all_facts) =
           available_concepts all_facts \<and>
         normalize_companyfacts cik ticker (JObj d) = normalize_companyfacts cik ticker (JObj d') \<and>
         ((\<forall>ns\<in>set all_facts. \<not> is_dict (snd ns)) \<longrightarrow>
            normalize_companyfacts cik ticker (JObj d) = Inr [])"
proof -
  let ?dicts = "filter (\<lambda>ns. is_dict (snd ns)) all_facts"
  have eff: "effective_concepts ?dicts = effective_concepts all_facts"
    by (simp add: effective_concepts_def available_concepts_dicts)
  have skip: "collect (emit_namespace cs cik ticker) ?dicts =
              collect (emit_namespace cs cik ticker) all_facts" for cs
    by (rule collect_skip) (rule emit_namespace_not_dict)
  have full: "normalize_companyfacts cik ticker (JObj d) =
              collect (emit_namespace (effective_concepts all_facts) cik ticker) all_facts"
    using assms(1) by (cases all_facts) (simp_all add: normalize_companyfacts_def dict_get_def)
  have part: "normalize_companyfacts cik ticker (JObj d') =
              collect (emit_namespace (effective_concepts ?dicts) cik ticker) ?dicts"
    using assms(2) by (cases ?dicts) (simp_all add: normalize_companyfacts_def dict_get_def)
  have none: "normalize_companyfacts cik ticker (JObj d) = Inr []"
    if "\<forall>ns\<in>set all_facts. \<not> is_dict (snd ns)"
    unfolding full by (rule collect_all_empty) (use that emit_namespace_not_dict in blast)
  show ?thesis
    using available_concepts_dicts full part eff skip none by simp
qed

theorem non_dict_namespaces_are_skipped_witness:
  "normalize_companyfacts ''0000320193'' ''AAPL''
     (JObj [(''facts'', JObj [(''dei'', JStr ''n/a''), (''us-gaap'', JObj [(''Revenues'', JObj
        [(''units'', JObj [(''USD'', JList [JObj [(''end'', JStr ''2023-12-31'')]])])])]),
        (''srt'', JList [JInt 1])])]) =
   normalize_companyfacts ''0000320193'' ''AAPL''
     (JObj [(''facts'', JObj [(''us-gaap'', JObj [(''Revenues'', JObj
        [(''units'', JObj [(''USD'', JList [JObj [(''end'', JStr ''2023-12-31'')]])])])])])]) \<and>
   normalize_companyfacts ''0000320193'' ''AAPL''
     (JObj [(''facts'', JObj [(''dei'', JStr ''n/a''), (''srt'', JList [JInt 1])])]) = Inr []"
proof -
  let ?gaap = "(''us-gaap'', JObj [(''Revenues'', JObj
        [(''units'', JObj [(''USD'', JList [JObj [(''end'', JStr ''2023-12-31'')]])])])])"
  let ?all = "[(''dei'', JStr ''n/a''), ?gaap, (''srt'', JList [JInt 1])]"
  let ?none = "[(''dei'', JStr ''n/a''), (''srt'', JList [JInt 1])]"
  have a1: "map_of [(''facts'', JObj ?all)] ''facts'' = Some (JObj ?all)" by simp
  have a2: "map_of [(''facts'', JObj [?gaap])] ''facts'' =
            Some (JObj (filter (\<lambda>ns. is_dict (snd ns)) ?all))" by simp
  have b1: "map_of [(''facts'', JObj ?none)] ''facts'' = Some (JObj ?none)" by simp
  have b2: "map_of [(''facts'', JObj [])] ''facts'' =
            Some (JObj (filter (\<lambda>ns. is_dict (snd ns)) ?none))" by simp
  have b3: "\<forall>ns\<in>set ?none. \<not> is_dict (snd ns)" by simp
  show ?thesis
    using non_dict_namespaces_are_skipped[OF a1 a2, of "''0000320193''" "''AAPL''"]
      non_dict_namespaces_are_skipped[OF b1 b2, of "''0000320193''" "''AAPL''"] b3
    by blast
qed

section \<open>The ticker resolver\<close>

lemma map_of_dict_set: "map_of (dict_set d k v) = (map_of d)(k \<mapsto> v)"
  by (induction d k v rule: dict_set.induct) auto

lemma find_append:
  "find P (xs @ ys) = (case find P xs of None \<Rightarrow> find P ys | Some x \<Rightarrow> Some x)"
  by (induction xs) auto

lemma find_Some_member: "find P xs = Some x \<Longrightarrow> x \<in> set xs \<and> P x"
  by (induction xs) (auto split: if_splits)

lemma map_of_fold_dict_set:
  "map_of (foldl (\<lambda>m v. dict_set m (key v) (val v)) acc data) t =
     (case find (\<lambda>v. key v = t) (rev data) of
        None \<Rightarrow> map_of acc t
      | Some v \<Rightarrow> Some (val v))"
proof (induction data arbitrary: acc)
  case Nil
  show ?case by simp
next
  case (Cons a data)
  show ?case
    by (simp add: Cons.IH find_append map_of_dict_set split: option.splits)
qed

lemma ticker_map_lookup:
  "map_of (get_ticker_cik_map data) t =
     map_option (\<lambda>v. zfill (str_int (cik_str v)) 10)
       (find (\<lambda>v. upper (ticker_symbol v) = t) (rev data))"
  unfolding get_ticker_cik_map_def map_of_fold_dict_set
  by (simp split: option.splits)

lemma digit_char_not_sign: "d < 10 \<Longrightarrow> digit_char d \<noteq> CHR ''+'' \<and> digit_char d \<noteq> CHR ''-''"
proof -
  assume "d < 10"
  then have "nat d \<in> {0, 1, 2, 3, 4, 5, 6, 7, 8, 9}" by auto
  then show ?thesis by (auto simp: digit_char_def)
qed

lemma digits_of_head:
  "\<exists>c cs. digits_of n = c # cs \<and> c \<noteq> CHR ''+'' \<and> c \<noteq> CHR ''-''"
proof (induction n rule: digits_of.induct)
  case (1 n)
  show ?case
  proof (cases "n < 10")
    case True
    then show ?thesis using digit_char_not_sign[of n] by (simp add: digits_of.simps[of n])
  next
    case False
    with 1 obtain c cs where "digits_of (n div 10) = c # cs" "c \<noteq> CHR ''+''" "c \<noteq> CHR ''-''"
      by blast
    with False show ?thesis by (simp add: digits_of.simps[of n])
  qed
qed

lemma zfill_digits: "zfill (digits_of n) w = pad_left_zeros w (digits_of n)"
proof -
  obtain c cs where "digits_of n = c # cs" "c \<noteq> CHR ''+''" "c \<noteq> CHR ''-''"
    using digits_of_head by blast
  then show ?thesis by (simp add: zfill_def pad_left_zeros_def)
qed

lemma zfill_str_int: "0 \<le> i \<Longrightarrow> zfill (str_int i) w = pad_left_zeros w (str_int i)"
  by (simp add: str_int_def zfill_digits)

lemma chosen_keys: "(t, c) \<in> set (chosen tickers t2c) \<Longrightarrow> map_of t2c t = Some c"
  by (auto simp: chosen_def split: option.splits)

text \<open>
  Claim C7, as the code has it. When several entries of the directory have the same
  ticker, the map gives the ticker the identifier of the last of them: the entry after
  which no entry has that ticker decides, whatever comes before it.
\<close>

theorem ticker_map_last_entry_wins:
  assumes "data = before @ [v] @ after"
    and "upper (ticker_symbol v) = t"
    and "\<forall>w\<in>set after. upper (ticker_symbol w) \<noteq> t"
  shows "map_of (get_ticker_cik_map data) t = Some (zfill (str_int (cik_str v)) 10)"
proof -
  have "find (\<lambda>v. upper (ticker_symbol v) = t) (rev after) = None"
    using assms(3) by (simp add: find_None_iff)
  then have "find (\<lambda>v. upper (ticker_symbol v) = t) (rev data) = Some v"
    using assms(1,2) by (simp add: find_append)
  then show ?thesis by (simp add: ticker_map_lookup)
qed

theorem ticker_map_last_entry_wins_witness:
  "map_of (get_ticker_cik_map
     [\<lparr>cik_str = 1111, ticker_symbol = ''ABC''\<rparr>, \<lparr>cik_str = 2222, ticker_symbol = ''ABC''\<rparr>,
      \<lparr>cik_str = 789019, ticker_symbol = ''MSFT''\<rparr>]) ''ABC'' =
   Some (zfill (str_int 2222) 10) \<and> zfill (str_int 2222) 10 = ''0000002222''"
proof -
  have a: "[\<lparr>cik_str = 1111, ticker_symbol = ''ABC''\<rparr>, \<lparr>cik_str = 2222, ticker_symbol = ''ABC''\<rparr>,
            \<lparr>cik_str = 789019, ticker_symbol = ''MSFT''\<rparr>] =
           [\<lparr>cik_str = 1111, ticker_symbol = ''ABC''\<rparr>] @ [\<lparr>cik_str = 2222, ticker_symbol = ''ABC''\<rparr>] @
           [\<lparr>cik_str = 789019, ticker_symbol = ''MSFT''\<rparr>]"
    by simp
  have b: "upper (ticker_symbol \<lparr>cik_str = 2222, ticker_symbol = ''ABC''\<rparr>) = ''ABC''"
    by code_simp
  have c: "\<forall>w\<in>set [\<lparr>cik_str = 789019, ticker_symbol = ''MSFT''\<rparr>]. upper (ticker_symbol w) \<noteq> ''ABC''"
    by code_simp
  have d: "zfill (str_int 2222) 10 = ''0000002222''"
    by code_simp
  show ?thesis
    using ticker_map_last_entry_wins[OF a b c] d by simp
qed

text \<open>
  The claim as the specification has it, first match wins, fails on a directory with two
  entries for one ticker: the identifier of the second entry is the one returned.
\<close>

theorem ticker_map_first_entry_loses:
  "map_of (get_ticker_cik_map
     [\<lparr>cik_str = 1111, ticker_symbol = ''ABC''\<rparr>, \<lparr>cik_str = 2222, ticker_symbol = ''ABC''\<rparr>])
     ''ABC'' = Some ''0000002222'' \<and>
   zfill (str_int (cik_str \<lparr>cik_str = 1111, ticker_symbol = ''ABC''\<rparr>)) 10 = ''0000001111'' \<and>
   map_of (get_ticker_cik_map
     [\<lparr>cik_str = 1111, ticker_symbol = ''ABC''\<rparr>, \<lparr>cik_str = 2222, ticker_symbol = ''ABC''\<rparr>])
     ''ABC'' \<noteq>
   Some (zfill (str_int (cik_str \<lparr>cik_str = 1111, ticker_symbol = ''ABC''\<rparr>)) 10)"
  by code_simp

text \<open>
  Claim C8. With the identifiers of the directory non-negative, a ticker that the
  directory has is mapped to the decimal string of the identifier of one of its entries,
  padded with zeros on the left to width 10; a ticker that the directory lacks has no key
  in the map, and is left out of the companies chosen for the run.
\<close>

theorem ticker_map_padded_or_omitted:
  assumes "\<forall>v\<in>set data. 0 \<le> cik_str v"
  shows "((\<exists>v\<in>set data. upper (ticker_symbol v) = t) \<longrightarrow>
            (\<exists>v\<in>set data. upper (ticker_symbol v) = t \<and>
               map_of (get_ticker_cik_map data) t =
                 Some (pad_left_zeros 10 (str_int (cik_str v))))) \<and>
         ((\<forall>v\<in>set data. upper (ticker_symbol v) \<noteq> t) \<longrightarrow>
            map_of (get_ticker_cik_map data) t = None \<and>
            t \<notin> fst ` set (get_ticker_cik_map data) \<and>
            t \<notin> fst ` set (chosen tickers (get_ticker_cik_map data)))"
proof (intro conjI impI)
  assume "\<exists>v\<in>set data. upper (ticker_symbol v) = t"
  then have "find (\<lambda>v. upper (ticker_symbol v) = t) (rev data) \<noteq> None"
    by (auto simp: find_None_iff)
  then obtain v where f: "find (\<lambda>v. upper (ticker_symbol v) = t) (rev data) = Some v"
    by blast
  then have v: "v \<in> set data" "upper (ticker_symbol v) = t"
    using find_Some_member[of "\<lambda>v. upper (ticker_symbol v) = t" "rev data" v] by simp_all
  then have "0 \<le> cik_str v" using assms by blast
  then have "map_of (get_ticker_cik_map data) t = Some (pad_left_zeros 10 (str_int (cik_str v)))"
    by (simp add: ticker_map_lookup f zfill_str_int)
  with v show "\<exists>v\<in>set data. upper (ticker_symbol v) = t \<and>
               map_of (get_ticker_cik_map data) t =
                 Some (pad_left_zeros 10 (str_int (cik_str v)))" by blast
next
  assume a: "\<forall>v\<in>set data. upper (ticker_symbol v) \<noteq> t"
  then have "find (\<lambda>v. upper (ticker_symbol v) = t) (rev data) = None"
    by (simp add: find_None_iff)
  then show n: "map_of (get_ticker_cik_map data) t = None"
    by (simp add: ticker_map_lookup)
  then show "t \<notin> fst ` set (get_ticker_cik_map data)"
    by (simp add: map_of_eq_None_iff)
  show "t \<notin> fst ` set (chosen tickers (get_ticker_cik_map data))"
    using n chosen_keys by fastforce
qed

theorem ticker_map_padded_or_omitted_witness:
  "map_of (get_ticker_cik_map
     [\<lparr>cik_str = 320193, ticker_symbol = ''AAPL''\<rparr>, \<lparr>cik_str = 789019, ticker_symbol = ''MSFT''\<rparr>])
     ''MSFT'' = Some ''0000789019'' \<and>
   map_of (get_ticker_cik_map
     [\<lparr>cik_str = 320193, ticker_symbol = ''AAPL''\<rparr>, \<lparr>cik_str = 789019, ticker_symbol = ''MSFT''\<rparr>])
     ''GOOG'' = None \<and>
   ''GOOG'' \<notin> fst ` set (chosen [''MSFT'', ''GOOG''] (get_ticker_cik_map
     [\<lparr>cik_str = 320193, ticker_symbol = ''AAPL''\<rparr>, \<lparr>cik_str = 789019, ticker_symbol = ''MSFT''\<rparr>]))"
proof -
  let ?data = "[\<lparr>cik_str = 320193, ticker_symbol = ''AAPL''\<rparr>,
                \<lparr>cik_str = 789019, ticker_symbol = ''MSFT''\<rparr>]"
  have h: "\<forall>v\<in>set ?data. 0 \<le> cik_str v" by simp
  have u: "upper ''AAPL'' = ''AAPL''" "upper ''MSFT'' = ''MSFT''" by code_simp+
  have p: "pad_left_zeros 10 (str_int 789019) = ''0000789019''" by code_simp
  have present: "map_of (get_ticker_cik_map ?data) ''MSFT'' = Some ''0000789019''"
    using ticker_map_padded_or_omitted[OF h, of "''MSFT''"] by (simp add: u p)
  have absent: "map_of (get_ticker_cik_map ?data) ''GOOG'' = None \<and>
      ''GOOG'' \<notin> fst ` set (chosen [''MSFT'', ''GOOG''] (get_ticker_cik_map ?data))"
    using ticker_map_padded_or_omitted[OF h, of "''GOOG''" "[''MSFT'', ''GOOG'']"] by (simp add: u)
  show ?thesis using present absent by blast
qed

section \<open>The submission flattener\<close>

text \<open>
  Claim C6, as the code has it. A filing history is without the recent-filings block in
  five ways, and the flattening step does one of two things. It returns zero rows and
  raises nothing when the document is a mapping whose \<^verbatim>\<open>filings\<close> entry is missing, or is a
  mapping without the \<^verbatim>\<open>recent\<close> key: each \<^verbatim>\<open>get\<close> of lines 100 and 101 has a default. It
  raises \<^verbatim>\<open>AttributeError\<close> when the document, its \<^verbatim>\<open>filings\<close> entry or its \<^verbatim>\<open>recent\<close> entry
  is there but is not a mapping, since only a mapping has \<^verbatim>\<open>get\<close>.
\<close>

theorem recent_filings_absent_outcomes:
  "(map_of s ''filings'' = None \<longrightarrow> flatten_submissions cik t (JObj s) = Inr []) \<and>
   (map_of s ''filings'' = Some (JObj filings) \<and> map_of filings ''recent'' = None \<longrightarrow>
      flatten_submissions cik t (JObj s) = Inr []) \<and>
   (\<not> is_dict subs \<longrightarrow> flatten_submissions cik t subs = Inl AttributeError) \<and>
   (map_of s ''filings'' = Some v \<and> \<not> is_dict v \<longrightarrow>
      flatten_submissions cik t (JObj s) = Inl AttributeError) \<and>
   (map_of s ''filings'' = Some (JObj filings) \<and> map_of filings ''recent'' = Some v \<and>
    \<not> is_dict v \<longrightarrow>
      flatten_submissions cik t (JObj s) = Inl AttributeError)"
proof (intro conjI impI)
  assume "map_of s ''filings'' = None"
  then show "flatten_submissions cik t (JObj s) = Inr []"
    by (simp add: flatten_submissions_def bind_err_def dict_get_def)
next
  assume "map_of s ''filings'' = Some (JObj filings) \<and> map_of filings ''recent'' = None"
  then show "flatten_submissions cik t (JObj s) = Inr []"
    by (simp add: flatten_submissions_def bind_err_def dict_get_def)
next
  assume "\<not> is_dict subs"
  then show "flatten_submissions cik t subs = Inl AttributeError"
    by (cases subs) (simp_all add: flatten_submissions_def bind_err_def)
next
  assume "map_of s ''filings'' = Some v \<and> \<not> is_dict v"
  then show "flatten_submissions cik t (JObj s) = Inl AttributeError"
    by (cases v) (simp_all add: flatten_submissions_def bind_err_def dict_get_def)
next
  assume "map_of s ''filings'' = Some (JObj filings) \<and> map_of filings ''recent'' = Some v \<and>
    \<not> is_dict v"
  then show "flatten_submissions cik t (JObj s) = Inl AttributeError"
    by (cases v) (simp_all add: flatten_submissions_def bind_err_def dict_get_def)
qed

theorem recent_filings_absent_outcomes_witness:
  "flatten_submissions ''0000320193'' ''AAPL'' (JObj [(''companyName'', JStr ''Apple Inc.'')]) =
     Inr [] \<and>
   flatten_submissions ''0000320193'' ''AAPL''
     (JObj [(''companyName'', JStr ''Apple Inc.''), (''filings'', JObj [(''files'', JList [])])]) =
     Inr [] \<and>
   flatten_submissions ''0000320193'' ''AAPL'' (JList []) = Inl AttributeError \<and>
   flatten_submissions ''0000320193'' ''AAPL'' (JObj [(''filings'', JNull)]) =
     Inl AttributeError \<and>
   flatten_submissions ''0000320193'' ''AAPL''
     (JObj [(''filings'', JObj [(''recent'', JNull)])]) = Inl AttributeError"
proof -
  have a: "map_of [(''companyName'', JStr ''Apple Inc.'')] ''filings'' = None" by simp
  have b: "map_of [(''companyName'', JStr ''Apple Inc.''), (''filings'', JObj [(''files'', JList [])])]
             ''filings'' = Some (JObj [(''files'', JList [])]) \<and>
           map_of [(''files'', JList [])] ''recent'' = None" by simp
  have c: "\<not> is_dict (JList [])" by simp
  have d: "map_of [(''filings'', JNull)] ''filings'' = Some JNull \<and> \<not> is_dict JNull" by simp
  have e: "map_of [(''filings'', JObj [(''recent'', JNull)])] ''filings'' =
             Some (JObj [(''recent'', JNull)]) \<and>
           map_of [(''recent'', JNull)] ''recent'' = Some JNull \<and> \<not> is_dict JNull" by simp
  note th = recent_filings_absent_outcomes[where cik = "''0000320193''" and t = "''AAPL''"]
  show ?thesis
    using a b c d e
      th[where s = "[(''companyName'', JStr ''Apple Inc.'')]"]
      th[where s = "[(''companyName'', JStr ''Apple Inc.''), (''filings'', JObj [(''files'', JList [])])]"
          and filings = "[(''files'', JList [])]"]
      th[where subs = "JList []"]
      th[where s = "[(''filings'', JNull)]" and v = JNull]
      th[where s = "[(''filings'', JObj [(''recent'', JNull)])]" and filings = "[(''recent'', JNull)]"
          and v = JNull]
    by blast
qed

text \<open>
  The claim as the specification has it, a loud failure when the block is absent, fails
  on a filing history that has a \<^verbatim>\<open>filings\<close> mapping without \<^verbatim>\<open>recent\<close>: the step returns
  normally, with no row.
\<close>

theorem recent_filings_absent_is_silent:
  "map_of [(''files'', JList [])] ''recent'' = None \<and>
   flatten_submissions ''0000320193'' ''AAPL''
     (JObj [(''companyName'', JStr ''Apple Inc.''), (''filings'', JObj [(''files'', JList [])])]) =
     Inr [] \<and>
   (\<nexists>e. flatten_submissions ''0000320193'' ''AAPL''
     (JObj [(''companyName'', JStr ''Apple Inc.''), (''filings'', JObj [(''files'', JList [])])]) =
     Inl e)"
  by (simp add: flatten_submissions_def bind_err_def dict_get_def)

section \<open>The NDJSON sink and the round trip through a reader\<close>

lemma hex_val_hex_char: "d < 16 \<Longrightarrow> hex_val (hex_char d) = Some d"
proof -
  assume "d < 16"
  then have "d \<in> {0, 1, 2, 3, 4, 5, 6, 7, 8, 9, 10, 11, 12, 13, 14, 15}" by simp arith
  then show ?thesis by (auto simp: hex_char_def hex_val_def)
qed

lemma code_point_escape:
  "n < 256 \<Longrightarrow> code_point CHR ''0'' CHR ''0'' (hex_char (n div 16)) (hex_char (n mod 16)) = Some n"
proof -
  assume n: "n < 256"
  then have d: "n div 16 < 16" "n mod 16 < 16" by auto
  have z: "hex_val CHR ''0'' = Some 0" by (simp add: hex_val_def)
  show ?thesis by (simp add: code_point_def z hex_val_hex_char d)
qed

lemma parse_chars_escape: "parse_chars (escape_char c @ rest) = push c (parse_chars rest)"
proof -
  consider "c = CHR 0x22" | "c = CHR 0x5C" | "c = CHR 0x0A" | "c = CHR 0x0D" | "c = CHR 0x09"
    | "c = CHR 0x08" | "c = CHR 0x0C"
    | (ctl) "c \<notin> {CHR 0x22, CHR 0x5C, CHR 0x0A, CHR 0x0D, CHR 0x09, CHR 0x08, CHR 0x0C}"
        "(of_char c :: nat) < 32 \<or> 126 < (of_char c :: nat)"
    | (plain) "c \<notin> {CHR 0x22, CHR 0x5C, CHR 0x0A, CHR 0x0D, CHR 0x09, CHR 0x08, CHR 0x0C}"
        "\<not> ((of_char c :: nat) < 32 \<or> 126 < (of_char c :: nat))"
    by blast
  then show ?thesis
  proof cases
    case ctl
    then have e: "escape_char c = [CHR 0x5C, CHR ''u'', CHR ''0'', CHR ''0'',
        hex_char (of_char c div 16), hex_char (of_char c mod 16)]"
      by (simp add: escape_char_def Let_def)
    show ?thesis
      by (simp add: e code_point_escape)
  next
    case plain
    then have e: "escape_char c = [c]"
      by (simp add: escape_char_def Let_def)
    show ?thesis using plain by (simp add: e)
  qed (simp_all add: escape_char_def unescape_def)
qed

lemma parse_chars_body:
  "parse_chars (concat (map escape_char s) @ CHR 0x22 # rest) = Some (s, rest)"
  by (induction s) (simp_all add: parse_chars_escape push_def)

lemma parse_chars_dumps_str:
  "dumps_str s @ rest = CHR 0x22 # concat (map escape_char s) @ CHR 0x22 # rest"
  by (simp add: dumps_str_def)

lemma digit_char_props:
  assumes "0 \<le> d" "d < 10"
  shows "is_digit (digit_char d)" "digit_val (digit_char d) = d"
    "digit_char d = CHR ''0'' \<longleftrightarrow> d = 0"
proof -
  have "d \<in> {0, 1, 2, 3, 4, 5, 6, 7, 8, 9}" using assms by simp arith
  then show "is_digit (digit_char d)" "digit_val (digit_char d) = d"
    "digit_char d = CHR ''0'' \<longleftrightarrow> d = 0"
    by (auto simp: digit_char_def is_digit_def digit_val_def)
qed

lemma digits_of_digits: "0 \<le> n \<Longrightarrow> c \<in> set (digits_of n) \<Longrightarrow> is_digit c"
proof (induction n rule: digits_of.induct)
  case (1 n)
  show ?case
  proof (cases "n < 10")
    case True
    with 1 show ?thesis by (simp add: digits_of.simps[of n] digit_char_props)
  next
    case False
    then have "0 \<le> n mod 10" "n mod 10 < 10" "0 \<le> n div 10" using 1(2) by auto
    with 1 False show ?thesis
      by (auto simp: digits_of.simps[of n] digit_char_props)
  qed
qed

lemma digits_of_value:
  "0 \<le> n \<Longrightarrow> foldl (\<lambda>a c. 10 * a + digit_val c) 0 (digits_of n) = n"
proof (induction n rule: digits_of.induct)
  case (1 n)
  show ?case
  proof (cases "n < 10")
    case True
    with 1 show ?thesis by (simp add: digits_of.simps[of n] digit_char_props)
  next
    case False
    then have "0 \<le> n mod 10" "n mod 10 < 10" "0 \<le> n div 10" using 1(2) by auto
    with 1 False show ?thesis
      by (simp add: digits_of.simps[of n] digit_char_props)
  qed
qed

lemma digits_of_leading:
  "0 < n \<Longrightarrow> \<exists>c cs. digits_of n = c # cs \<and> c \<noteq> CHR ''0''"
proof (induction n rule: digits_of.induct)
  case (1 n)
  show ?case
  proof (cases "n < 10")
    case True
    with 1(2) show ?thesis by (simp add: digits_of.simps[of n] digit_char_props)
  next
    case False
    then have "0 < n div 10" by auto
    with 1 False obtain c cs where "digits_of (n div 10) = c # cs" "c \<noteq> CHR ''0''" by blast
    with False show ?thesis by (simp add: digits_of.simps[of n])
  qed
qed

lemma digits_of_canonical:
  "0 \<le> n \<Longrightarrow> \<not> (hd (digits_of n) = CHR ''0'' \<and> 1 < length (digits_of n))"
proof (cases "n = 0")
  case True
  then show ?thesis by (simp add: digits_of.simps[of 0])
next
  case False
  assume "0 \<le> n"
  with False have "0 < n" by simp
  then show ?thesis using digits_of_leading[of n] by auto
qed

lemma delimited_not_digit: "delimited (c # cs) \<Longrightarrow> \<not> is_digit c \<and> c \<notin> set ''.eE''"
  by (auto simp: delimited_def is_digit_def is_ws_def)

lemma dict_set_fresh: "k \<notin> fst ` set d \<Longrightarrow> dict_set d k v = d @ [(k, v)]"
  by (induction d k v rule: dict_set.induct) auto

lemma fold_dict_set_distinct:
  "distinct (map fst (acc @ d)) \<Longrightarrow>
   foldl (\<lambda>d kv. dict_set d (fst kv) (snd kv)) acc d = acc @ d"
proof (induction d arbitrary: acc)
  case Nil
  show ?case by simp
next
  case (Cons kv d)
  have "fst kv \<notin> fst ` set acc" using Cons.prems by auto
  then have "dict_set acc (fst kv) (snd kv) = acc @ [kv]" by (simp add: dict_set_fresh)
  moreover have "distinct (map fst ((acc @ [kv]) @ d))" using Cons.prems by simp
  ultimately show ?case using Cons.IH[of "acc @ [kv]"] by simp
qed

lemma skip_ws_head: "\<not> is_ws c \<Longrightarrow> skip_ws (c # cs) = c # cs"
  by (simp add: skip_ws_def)

lemma skip_ws_ws: "is_ws c \<Longrightarrow> skip_ws (c # cs) = skip_ws cs"
  by (simp add: skip_ws_def)

lemma parse_value_ws: "is_ws c \<Longrightarrow> parse_value fuel (c # s) = parse_value fuel s"
  by (cases fuel) (simp_all add: skip_ws_ws)

lemma parse_items_ws: "is_ws c \<Longrightarrow> parse_items fuel (c # s) = parse_items fuel s"
  by (cases fuel) (simp_all add: parse_value_ws)

lemma parse_members_ws: "is_ws c \<Longrightarrow> parse_members fuel (c # s) = parse_members fuel s"
  by (cases fuel) (simp_all add: skip_ws_ws)

lemma digits_value_digits_of: "0 \<le> n \<Longrightarrow> digits_value (digits_of n) = n"
  by (simp add: digits_value_def digits_of_value)

lemma digits_value_snoc: "digits_value (ds @ [c]) = 10 * digits_value ds + digit_val c"
  by (simp add: digits_value_def)

lemma digits_value_append:
  "digits_value (xs @ ys) = digits_value xs * 10 ^ length ys + digits_value ys"
proof (induction ys rule: rev_induct)
  case Nil
  show ?case by (simp add: digits_value_def)
next
  case (snoc y ys)
  have "digits_value (xs @ ys @ [y]) = 10 * digits_value (xs @ ys) + digit_val y"
    using digits_value_snoc[of "xs @ ys" y] by simp
  then show ?case
    by (simp add: snoc digits_value_snoc algebra_simps)
qed

lemma digits_value_zeros: "digits_value (replicate k CHR ''0'') = 0"
proof (induction k)
  case 0
  show ?case by (simp add: digits_value_def)
next
  case (Suc k)
  have "replicate (Suc k) CHR ''0'' = replicate k CHR ''0'' @ [CHR ''0'']"
    by (simp add: replicate_append_same)
  then have "digits_value (replicate (Suc k) CHR ''0'') =
             10 * digits_value (replicate k CHR ''0'') + digit_val CHR ''0''"
    using digits_value_snoc[of "replicate k CHR ''0''" "CHR ''0''"] by simp
  then show ?case using Suc by (simp add: digit_val_def)
qed

lemma is_digit_zero: "is_digit CHR ''0''"
  by (simp add: is_digit_def)

lemma scan_digits:
  assumes "\<forall>c\<in>set ds. is_digit c" and "rest = [] \<or> \<not> is_digit (hd rest)"
  shows "takeWhile is_digit (ds @ rest) = ds" "dropWhile is_digit (ds @ rest) = rest"
proof -
  have stop: "takeWhile is_digit rest = []" "dropWhile is_digit rest = rest"
    using assms(2) by (cases rest; simp)+
  show "takeWhile is_digit (ds @ rest) = ds" "dropWhile is_digit (ds @ rest) = rest"
    using assms(1) stop by (simp_all add: takeWhile_append2 dropWhile_append2)
qed

lemma delimited_stops: "delimited rest \<Longrightarrow> rest = [] \<or> \<not> is_digit (hd rest)"
  using delimited_not_digit by (cases rest) auto

lemma parse_fraction_none:
  "s = [] \<or> hd s \<noteq> CHR ''.'' \<Longrightarrow> parse_fraction s = ([], s)"
  by (cases s) (auto simp: parse_fraction_def)

lemma parse_fraction_some:
  assumes "fp \<noteq> []" "\<forall>c\<in>set fp. is_digit c" "rest = [] \<or> \<not> is_digit (hd rest)"
  shows "parse_fraction (CHR ''.'' # fp @ rest) = (fp, rest)"
  using scan_digits[OF assms(2,3)] assms(1) by (simp add: parse_fraction_def)

lemma parse_exponent_none:
  "s = [] \<or> (hd s \<noteq> CHR ''e'' \<and> hd s \<noteq> CHR ''E'') \<Longrightarrow> parse_exponent s = (None, s)"
  by (cases s) (auto simp: parse_exponent_def)

lemma digits_of_nonempty: "digits_of n \<noteq> []"
  using digits_of_head[of n] by auto

lemma exponent_text_parse:
  assumes "rest = [] \<or> \<not> is_digit (hd rest)"
  shows "parse_exponent (CHR ''e'' # exponent_text x @ rest) = (Some x, rest)"
proof -
  let ?t = "if length (digits_of \<bar>x\<bar>) < 2 then CHR ''0'' # digits_of \<bar>x\<bar> else digits_of \<bar>x\<bar>"
  have all: "\<forall>c\<in>set ?t. is_digit c"
    using digits_of_digits[of "\<bar>x\<bar>"] is_digit_zero by auto
  have ne: "?t \<noteq> []" using digits_of_nonempty by auto
  have val: "digits_value ?t = \<bar>x\<bar>"
    using digits_value_append[of "[CHR ''0'']" "digits_of \<bar>x\<bar>"] digits_value_digits_of[of "\<bar>x\<bar>"]
    by (auto simp: digits_value_def digit_val_def)
  have tw: "takeWhile is_digit (?t @ rest) = ?t" "dropWhile is_digit (?t @ rest) = rest"
    using scan_digits[OF all assms] by blast+
  have e: "exponent_text x @ rest = (if x < 0 then CHR ''-'' else CHR ''+'') # ?t @ rest"
    by (simp add: exponent_text_def)
  show ?thesis
    unfolding e parse_exponent_def
    using tw ne val by (simp add: Let_def)
qed

lemma strip_zeros_power:
  "m mod 10 \<noteq> 0 \<Longrightarrow> strip_zeros (m * 10 ^ k) e = (m, e + int k)"
proof (induction k arbitrary: e)
  case 0
  then show ?case by (simp add: strip_zeros.simps[of m e])
next
  case (Suc k)
  have nz: "m \<noteq> 0" using Suc.prems by auto
  have "strip_zeros (m * 10 ^ Suc k) e = strip_zeros (m * 10 ^ k) (e + 1)"
    using nz by (subst strip_zeros.simps) simp
  then show ?case using Suc by simp
qed

lemma make_float_canonical:
  assumes "float_canonical (Finite neg m e)"
  shows "make_float neg (m * 10 ^ k) (e - int k) = Finite neg m e"
proof (cases "m = 0")
  case True
  then show ?thesis using assms by (simp add: make_float_def)
next
  case False
  then have "m mod 10 \<noteq> 0" using assms by simp
  from strip_zeros_power[OF this, of k "e - int k"] False show ?thesis
    by (simp add: make_float_def)
qed

lemma is_digit_not_minus: "is_digit c \<Longrightarrow> c \<noteq> CHR ''-''"
  by (auto simp: is_digit_def)

lemma parse_number_parts:
  assumes "ip \<noteq> []" "\<forall>c\<in>set ip. is_digit c" "\<not> (hd ip = CHR ''0'' \<and> 1 < length ip)"
    and "tail = [] \<or> \<not> is_digit (hd tail)"
    and "parse_fraction tail = (fp, s3)" "parse_exponent s3 = (ex, s4)"
  shows "parse_number ((if neg then ''-'' else []) @ ip @ tail) =
     (if fp = [] \<and> ex = None
      then Some (JInt (if neg then - digits_value ip else digits_value ip), s4)
      else Some (JFloat (make_float neg (digits_value (ip @ fp))
                           ((case ex of None \<Rightarrow> 0 | Some x \<Rightarrow> x) - int (length fp))), s4))"
proof -
  let ?s = "(if neg then ''-'' else []) @ ip @ tail"
  obtain c cs where ip: "ip = c # cs" using assms(1) by (cases ip) auto
  then have "is_digit c" using assms(2) by simp
  then have c: "c \<noteq> CHR ''-''" by (rule is_digit_not_minus)
  have neg: "(?s \<noteq> [] \<and> hd ?s = CHR ''-'') = neg"
    using c by (simp add: ip)
  have s1: "(if neg then tl ?s else ?s) = ip @ tail" by simp
  have scan: "takeWhile is_digit (ip @ tail) = ip" "dropWhile is_digit (ip @ tail) = tail"
    using scan_digits[OF assms(2,4)] by blast+
  show ?thesis
    unfolding parse_number_def neg s1 Let_def scan assms(5) assms(6) prod.case
    using assms(1,3) by auto
qed

lemma delimited_no_fraction:
  "delimited rest \<Longrightarrow> parse_fraction rest = ([], rest) \<and> parse_exponent rest = (None, rest)"
proof -
  assume d: "delimited rest"
  have "rest = [] \<or> (hd rest \<noteq> CHR ''.'' \<and> hd rest \<noteq> CHR ''e'' \<and> hd rest \<noteq> CHR ''E'')"
    using d by (cases rest) (auto simp: delimited_def is_ws_def)
  then show ?thesis using parse_fraction_none[of rest] parse_exponent_none[of rest] by blast
qed

lemma parse_number_str_int:
  assumes "delimited rest"
  shows "parse_number (str_int i @ rest) = Some (JInt i, rest)"
proof -
  let ?n = "\<bar>i\<bar>"
  have t: "str_int i = (if i < 0 then ''-'' else []) @ digits_of ?n"
    by (auto simp: str_int_def)
  have ne: "digits_of ?n \<noteq> []" by (rule digits_of_nonempty)
  have all: "\<forall>c\<in>set (digits_of ?n). is_digit c" using digits_of_digits[of ?n] by auto
  have can: "\<not> (hd (digits_of ?n) = CHR ''0'' \<and> 1 < length (digits_of ?n))"
    using digits_of_canonical[of ?n] by simp
  note p = parse_number_parts[OF ne all can delimited_stops[OF assms]
      conjunct1[OF delimited_no_fraction[OF assms]] conjunct2[OF delimited_no_fraction[OF assms]],
      of "i < 0"]
  show ?thesis
    unfolding t using p by (simp add: digits_value_digits_of)
qed

lemma digits_of_zero: "digits_of 0 = ''0''"
  by (simp add: digits_of.simps[of 0] digit_char_def)

lemma digits_of_hd_nonzero: "0 < m \<Longrightarrow> hd (digits_of m) \<noteq> CHR ''0''"
  using digits_of_leading[of m] by auto

lemma float_digits_parse:
  assumes can: "float_canonical (Finite neg m e)" and del: "delimited rest"
  shows "parse_number ((if neg then ''-'' else []) @ float_digits m e @ rest) =
         Some (JFloat (Finite neg m e), rest)"
proof -
  let ?ds = "digits_of m"
  let ?n = "int (length ?ds)"
  let ?decpt = "?n + e"
  have m0: "0 \<le> m" using can by simp
  have ne: "?ds \<noteq> []" by (rule digits_of_nonempty)
  have all: "\<forall>c\<in>set ?ds. is_digit c" using digits_of_digits[OF m0] by blast
  have val: "digits_value ?ds = m" using digits_value_digits_of[OF m0] .
  have n1: "1 \<le> ?n" using ne by (cases ?ds) auto
  have zero: "?decpt = 1" if "m = 0" using that can by (simp add: digits_of_zero)
  have lead: "hd ?ds \<noteq> CHR ''0''" if "m \<noteq> 0" using that m0 digits_of_hd_nonzero[of m] by simp
  have stop: "rest = [] \<or> \<not> is_digit (hd rest)" using del by (rule delimited_stops)
  note nf = delimited_no_fraction[OF del]
  have mk: "make_float neg (m * 10 ^ k) (e - int k) = Finite neg m e" for k
    using make_float_canonical[OF can] .
  consider (E) "?decpt \<le> - 4 \<or> 16 < ?decpt"
    | (F1) "\<not> (?decpt \<le> - 4 \<or> 16 < ?decpt)" "?decpt \<le> 0"
    | (F2) "\<not> (?decpt \<le> - 4 \<or> 16 < ?decpt)" "0 < ?decpt" "?decpt < ?n"
    | (F3) "\<not> (?decpt \<le> - 4 \<or> 16 < ?decpt)" "0 < ?decpt" "?n \<le> ?decpt"
    by linarith
  then show ?thesis
  proof cases
    case E
    let ?x = "?decpt - 1"
    let ?after = "CHR ''e'' # exponent_text ?x @ rest"
    have shape: "float_digits m e @ rest =
        take 1 ?ds @ (if tl ?ds = [] then [] else CHR ''.'' # tl ?ds) @ ?after"
      using E by (simp add: float_digits_def Let_def)
    have ip: "take 1 ?ds \<noteq> []" "\<forall>c\<in>set (take 1 ?ds). is_digit c"
      "\<not> (hd (take 1 ?ds) = CHR ''0'' \<and> 1 < length (take 1 ?ds))"
      using ne all by (auto dest: in_set_takeD)
    have ex: "parse_exponent ?after = (Some ?x, rest)"
      using exponent_text_parse[OF stop] .
    have join: "take 1 ?ds @ tl ?ds = ?ds" using ne by (cases ?ds) auto
    show ?thesis
    proof (cases "tl ?ds = []")
      case True
      then have one: "?n = 1" "take 1 ?ds = ?ds" using ne by (cases ?ds; simp)+
      have fr: "parse_fraction ?after = ([], ?after)" by (rule parse_fraction_none) simp
      have tl: "?after = [] \<or> \<not> is_digit (hd ?after)" by (simp add: is_digit_def)
      from parse_number_parts[OF ip tl fr ex, of neg] mk[of 0] val one True
      show ?thesis unfolding shape by simp
    next
      case False
      let ?tail = "CHR ''.'' # tl ?ds @ ?after"
      have fr: "parse_fraction ?tail = (tl ?ds, ?after)"
      proof (rule parse_fraction_some)
        show "tl ?ds \<noteq> []" using False .
        show "\<forall>c\<in>set (tl ?ds). is_digit c" using all ne by (cases ?ds) auto
        show "?after = [] \<or> \<not> is_digit (hd ?after)" by (simp add: is_digit_def)
      qed
      have tl: "?tail = [] \<or> \<not> is_digit (hd ?tail)" by (simp add: is_digit_def)
      have len: "int (length (tl ?ds)) = ?n - 1" using ne by (cases ?ds) auto
      from parse_number_parts[OF ip tl fr ex, of neg] mk[of 0] val join len False
      show ?thesis unfolding shape by simp
    qed
  next
    case F1
    let ?k = "nat (- ?decpt)"
    let ?fp = "replicate ?k CHR ''0'' @ ?ds"
    have shape: "float_digits m e @ rest = ''0'' @ CHR ''.'' # ?fp @ rest"
      using F1 by (simp add: float_digits_def Let_def)
    have ip: "''0'' \<noteq> []" "\<forall>c\<in>set ''0''. is_digit c"
      "\<not> (hd ''0'' = CHR ''0'' \<and> 1 < length ''0'')"
      by (simp_all add: is_digit_zero)
    have fr: "parse_fraction (CHR ''.'' # ?fp @ rest) = (?fp, rest)"
    proof (rule parse_fraction_some)
      show "?fp \<noteq> []" using ne by simp
      show "\<forall>c\<in>set ?fp. is_digit c" using all is_digit_zero by auto
      show "rest = [] \<or> \<not> is_digit (hd rest)" using stop .
    qed
    have tl: "CHR ''.'' # ?fp @ rest = [] \<or> \<not> is_digit (hd (CHR ''.'' # ?fp @ rest))"
      by (simp add: is_digit_def)
    have v: "digits_value (''0'' @ ?fp) = m"
    proof -
      have "''0'' @ ?fp = replicate (Suc ?k) CHR ''0'' @ ?ds" by simp
      then have "digits_value (''0'' @ ?fp) =
                 digits_value (replicate (Suc ?k) CHR ''0'') * 10 ^ length ?ds + digits_value ?ds"
        using digits_value_append[of "replicate (Suc ?k) CHR ''0''" ?ds] by simp
      then show ?thesis using digits_value_zeros[of "Suc ?k"] val by simp
    qed
    have ex: "0 - int (length ?fp) = e" using F1 by simp
    from parse_number_parts[OF ip tl fr conjunct2[OF nf], of neg] mk[of 0] v ex ne
    show ?thesis unfolding shape by simp
  next
    case F2
    let ?d = "nat ?decpt"
    have shape: "float_digits m e @ rest = take ?d ?ds @ CHR ''.'' # drop ?d ?ds @ rest"
      using F2 by (simp add: float_digits_def Let_def)
    have mnz: "m \<noteq> 0" using can F2 by (auto simp: digits_of_zero)
    have hd: "hd (take ?d ?ds) = hd ?ds" using F2 ne by (cases ?ds) (auto simp: take_Cons')
    have ip: "take ?d ?ds \<noteq> []" "\<forall>c\<in>set (take ?d ?ds). is_digit c"
      "\<not> (hd (take ?d ?ds) = CHR ''0'' \<and> 1 < length (take ?d ?ds))"
      using F2 ne all lead[OF mnz] hd by (auto dest: in_set_takeD)
    have fr: "parse_fraction (CHR ''.'' # drop ?d ?ds @ rest) = (drop ?d ?ds, rest)"
    proof (rule parse_fraction_some)
      show "drop ?d ?ds \<noteq> []" using F2 by simp
      show "\<forall>c\<in>set (drop ?d ?ds). is_digit c" using all by (auto dest: in_set_dropD)
      show "rest = [] \<or> \<not> is_digit (hd rest)" using stop .
    qed
    have tl: "CHR ''.'' # drop ?d ?ds @ rest = [] \<or>
              \<not> is_digit (hd (CHR ''.'' # drop ?d ?ds @ rest))"
      by (simp add: is_digit_def)
    have ex: "0 - int (length (drop ?d ?ds)) = e" using F2 by simp
    have dne: "drop ?d ?ds \<noteq> []" using F2 by simp
    from parse_number_parts[OF ip tl fr conjunct2[OF nf], of neg] mk[of 0] val ex dne
    show ?thesis unfolding shape by simp
  next
    case F3
    let ?k = "nat (?decpt - ?n)"
    let ?ip = "?ds @ replicate ?k CHR ''0''"
    have shape: "float_digits m e @ rest = ?ip @ CHR ''.'' # ''0'' @ rest"
      using F3 by (simp add: float_digits_def Let_def)
    have ek: "e = int ?k" using F3 by simp
    have canon: "\<not> (hd ?ip = CHR ''0'' \<and> 1 < length ?ip)"
    proof (cases "m = 0")
      case True
      then have "e = 0" using can by simp
      then show ?thesis using True ek by (simp add: digits_of_zero)
    next
      case False
      then show ?thesis using lead ne by simp
    qed
    have ip: "?ip \<noteq> []" "\<forall>c\<in>set ?ip. is_digit c" using ne all is_digit_zero by auto
    have fr: "parse_fraction (CHR ''.'' # ''0'' @ rest) = (''0'', rest)"
      by (rule parse_fraction_some) (use stop is_digit_zero in auto)
    have tl: "CHR ''.'' # ''0'' @ rest = [] \<or> \<not> is_digit (hd (CHR ''.'' # ''0'' @ rest))"
      by (simp add: is_digit_def)
    have v: "digits_value (?ip @ ''0'') = m * 10 ^ Suc ?k"
    proof -
      have "?ip @ ''0'' = ?ds @ replicate (Suc ?k) CHR ''0''"
        by (simp add: replicate_append_same)
      then have "digits_value (?ip @ ''0'') =
                 digits_value ?ds * 10 ^ Suc ?k + digits_value (replicate (Suc ?k) CHR ''0'')"
        using digits_value_append[of ?ds "replicate (Suc ?k) CHR ''0''"] by simp
      then show ?thesis using digits_value_zeros[of "Suc ?k"] val by simp
    qed
    have ex: "0 - int (length ''0'') = e - int (Suc ?k)" using ek by simp
    from parse_number_parts[OF ip canon tl fr conjunct2[OF nf], of neg] mk[of "Suc ?k"] v ex
    show ?thesis unfolding shape by simp
  qed
qed

lemma float_digits_head: "0 \<le> m \<Longrightarrow> \<exists>c cs. float_digits m e = c # cs \<and> is_digit c"
proof -
  assume m0: "0 \<le> m"
  obtain d ds where ds: "digits_of m = d # ds" using digits_of_nonempty[of m] by (cases "digits_of m") auto
  then have d: "is_digit d" using digits_of_digits[OF m0, of d] by simp
  let ?decpt = "int (length (digits_of m)) + e"
  consider (E) "?decpt \<le> - 4 \<or> 16 < ?decpt"
    | (F1) "\<not> (?decpt \<le> - 4 \<or> 16 < ?decpt)" "?decpt \<le> 0"
    | (F2) "\<not> (?decpt \<le> - 4 \<or> 16 < ?decpt)" "0 < ?decpt" "?decpt < int (length (digits_of m))"
    | (F3) "\<not> (?decpt \<le> - 4 \<or> 16 < ?decpt)" "0 < ?decpt" "int (length (digits_of m)) \<le> ?decpt"
    by linarith
  then show ?thesis
  proof cases
    case E
    then show ?thesis using d by (simp add: float_digits_def Let_def ds)
  next
    case F1
    then show ?thesis using is_digit_zero by (simp add: float_digits_def Let_def)
  next
    case F2
    then show ?thesis using d by (simp add: float_digits_def Let_def ds take_Cons')
  next
    case F3
    then show ?thesis using d by (simp add: float_digits_def Let_def ds)
  qed
qed

lemma number_head:
  "t = str_int i \<or> (t = dumps_float (Finite neg m e) \<and> 0 \<le> m) \<Longrightarrow>
   \<exists>c cs. t = c # cs \<and> (is_digit c \<or> (c = CHR ''-'' \<and> cs \<noteq> [] \<and> is_digit (hd cs)))"
proof (elim disjE conjE)
  assume t: "t = str_int i"
  obtain d ds where ds: "digits_of \<bar>i\<bar> = d # ds"
    using digits_of_nonempty[of "\<bar>i\<bar>"] by (cases "digits_of \<bar>i\<bar>") auto
  then have "is_digit d" using digits_of_digits[of "\<bar>i\<bar>" d] by simp
  then show ?thesis using t ds by (cases "i < 0") (auto simp: str_int_def)
next
  assume t: "t = dumps_float (Finite neg m e)" and m0: "0 \<le> m"
  obtain d ds where "float_digits m e = d # ds" "is_digit d"
    using float_digits_head[OF m0] by blast
  then show ?thesis using t by (cases neg) auto
qed

lemma is_digit_facts:
  "is_digit c \<Longrightarrow>
   \<not> is_ws c \<and> c \<noteq> CHR ''['' \<and> c \<noteq> CHR '']'' \<and> c \<noteq> CHR ''{'' \<and> c \<noteq> CHR ''}'' \<and> c \<noteq> CHR 0x22 \<and>
   CHR ''n'' \<noteq> c \<and> CHR ''t'' \<noteq> c \<and> CHR ''f'' \<noteq> c \<and> CHR ''N'' \<noteq> c \<and> CHR ''I'' \<noteq> c \<and>
   CHR ''-'' \<noteq> c"
  by (auto simp: is_digit_def is_ws_def)

lemma parse_value_number:
  assumes "is_digit c \<or> (c = CHR ''-'' \<and> cs \<noteq> [] \<and> is_digit (hd cs))"
  shows "parse_value (Suc fuel) (c # cs) = parse_number (c # cs)"
  using assms
proof
  assume "is_digit c"
  from is_digit_facts[OF this] show ?thesis by (simp add: skip_ws_head)
next
  assume a: "c = CHR ''-'' \<and> cs \<noteq> [] \<and> is_digit (hd cs)"
  then obtain d ds where cs: "cs = d # ds" and d: "is_digit d" by (cases cs) auto
  from is_digit_facts[OF d] show ?thesis
    using a by (simp add: cs skip_ws_def is_ws_def)
qed

lemma parse_value_int:
  assumes "delimited rest"
  shows "parse_value (Suc fuel) (str_int i @ rest) = Some (JInt i, rest)"
proof -
  obtain c cs where t: "str_int i = c # cs"
    and h: "is_digit c \<or> (c = CHR ''-'' \<and> cs \<noteq> [] \<and> is_digit (hd cs))"
    using number_head[of "str_int i" i] by blast
  have h': "is_digit c \<or> (c = CHR ''-'' \<and> cs @ rest \<noteq> [] \<and> is_digit (hd (cs @ rest)))"
    using h by auto
  have "parse_value (Suc fuel) (c # cs @ rest) = parse_number (c # cs @ rest)"
    using parse_value_number[OF h'] .
  then show ?thesis using parse_number_str_int[OF assms, of i] by (simp add: t)
qed

lemma parse_value_float:
  assumes "float_canonical x" "delimited rest"
  shows "parse_value (Suc fuel) (dumps_float x @ rest) = Some (JFloat x, rest)"
proof (cases x)
  case (Finite neg m e)
  then have m0: "0 \<le> m" using assms(1) by simp
  obtain c cs where t: "dumps_float (Finite neg m e) = c # cs"
    and h: "is_digit c \<or> (c = CHR ''-'' \<and> cs \<noteq> [] \<and> is_digit (hd cs))"
    using number_head[of "dumps_float (Finite neg m e)" 0 neg m e] m0 by blast
  have h': "is_digit c \<or> (c = CHR ''-'' \<and> cs @ rest \<noteq> [] \<and> is_digit (hd (cs @ rest)))"
    using h by auto
  have "parse_value (Suc fuel) (c # cs @ rest) = parse_number (c # cs @ rest)"
    using parse_value_number[OF h'] .
  moreover have "parse_number ((c # cs) @ rest) = Some (JFloat (Finite neg m e), rest)"
  proof -
    have "(c # cs) @ rest = (if neg then ''-'' else []) @ float_digits m e @ rest"
      using t by (cases neg) simp_all
    then show ?thesis
      using float_digits_parse[OF assms(1)[unfolded Finite] assms(2)] by (simp only:)
  qed
  ultimately show ?thesis using Finite t by simp
next
  case (Infinity neg)
  then show ?thesis by (cases neg) (simp_all add: skip_ws_def is_ws_def)
next
  case NaN
  then show ?thesis by (simp add: skip_ws_def is_ws_def)
qed

lemma json_dumps_head: "well_formed v \<Longrightarrow> \<exists>c cs. json_dumps v = c # cs \<and> value_start c"
proof (cases v)
  case (JInt i)
  obtain c cs where "str_int i = c # cs"
    "is_digit c \<or> (c = CHR ''-'' \<and> cs \<noteq> [] \<and> is_digit (hd cs))"
    using number_head[of "str_int i" i] by blast
  then show ?thesis using JInt is_digit_facts[of c]
    by (auto simp: value_start_def is_ws_def)
next
  case (JFloat x)
  assume w: "well_formed v"
  show ?thesis
  proof (cases x)
    case (Finite neg m e)
    then have "0 \<le> m" using w JFloat by simp
    then obtain c cs where "dumps_float (Finite neg m e) = c # cs"
      "is_digit c \<or> (c = CHR ''-'' \<and> cs \<noteq> [] \<and> is_digit (hd cs))"
      using number_head[of "dumps_float (Finite neg m e)" 0 neg m e] by blast
    then show ?thesis using JFloat Finite is_digit_facts[of c]
      by (auto simp: value_start_def is_ws_def)
  next
    case (Infinity neg)
    then show ?thesis using JFloat by (cases neg) (simp_all add: value_start_def is_ws_def)
  next
    case NaN
    then show ?thesis using JFloat by (simp add: value_start_def is_ws_def)
  qed
qed (auto simp: value_start_def is_ws_def dumps_str_def)

lemma dumps_items_head:
  "xs \<noteq> [] \<Longrightarrow> well_formed_items xs \<Longrightarrow> \<exists>c cs. dumps_items xs = c # cs \<and> value_start c"
proof (cases xs)
  case Nil
  assume "xs \<noteq> []"
  with Nil show ?thesis by simp
next
  case (Cons x ys)
  assume "well_formed_items xs"
  then have "well_formed x" using Cons by simp
  then obtain c cs where "json_dumps x = c # cs" "value_start c" using json_dumps_head by blast
  then show ?thesis using Cons by (cases ys) auto
qed

lemma dumps_members_head:
  "ms \<noteq> [] \<Longrightarrow> \<exists>cs. dumps_members ms = CHR 0x22 # cs"
proof (cases ms)
  case Nil
  assume "ms \<noteq> []"
  with Nil show ?thesis by simp
next
  case (Cons kv ns)
  then show ?thesis by (cases kv; cases ns) (auto simp: dumps_str_def)
qed

lemma parse_value_null: "parse_value (Suc fuel) (''null'' @ rest) = Some (JNull, rest)"
  by (simp add: skip_ws_def is_ws_def)

lemma parse_value_bool:
  "parse_value (Suc fuel) ((if b then ''true'' else ''false'') @ rest) = Some (JBool b, rest)"
  by (simp add: skip_ws_def is_ws_def)

lemma parse_value_str: "parse_value (Suc fuel) (dumps_str s @ rest) = Some (JStr s, rest)"
  by (simp add: parse_chars_dumps_str skip_ws_def is_ws_def parse_chars_body)

lemma parse_value_list_empty: "parse_value (Suc fuel) (''[]'' @ rest) = Some (JList [], rest)"
  by (simp add: skip_ws_def is_ws_def)

lemma parse_value_obj_empty: "parse_value (Suc fuel) (''{}'' @ rest) = Some (JObj [], rest)"
  by (simp add: skip_ws_def is_ws_def)

lemma parse_value_list:
  assumes "xs \<noteq> []" and "well_formed_items xs"
    and "parse_items fuel (dumps_items xs @ CHR '']'' # rest) = Some (xs, rest)"
  shows "parse_value (Suc fuel) (CHR ''['' # dumps_items xs @ CHR '']'' # rest) =
         Some (JList xs, rest)"
proof -
  obtain c cs where e: "dumps_items xs = c # cs" and c: "value_start c"
    using dumps_items_head[OF assms(1,2)] by blast
  have o: "skip_ws (CHR ''['' # dumps_items xs @ CHR '']'' # rest) =
           CHR ''['' # dumps_items xs @ CHR '']'' # rest"
    by (simp add: skip_ws_def is_ws_def)
  have i: "skip_ws (dumps_items xs @ CHR '']'' # rest) = c # cs @ CHR '']'' # rest"
    using c by (simp add: e skip_ws_head value_start_def)
  show ?thesis
    using c assms(3) by (simp add: o i value_start_def)
qed

lemma parse_value_obj:
  assumes "ms \<noteq> []" and "distinct (map fst ms)"
    and "parse_members fuel (dumps_members ms @ CHR ''}'' # rest) = Some (ms, rest)"
  shows "parse_value (Suc fuel) (CHR ''{'' # dumps_members ms @ CHR ''}'' # rest) =
         Some (JObj ms, rest)"
proof -
  obtain cs where e: "dumps_members ms = CHR 0x22 # cs"
    using dumps_members_head[OF assms(1)] by blast
  have o: "skip_ws (CHR ''{'' # dumps_members ms @ CHR ''}'' # rest) =
           CHR ''{'' # dumps_members ms @ CHR ''}'' # rest"
    by (simp add: skip_ws_def is_ws_def)
  have i: "skip_ws (dumps_members ms @ CHR ''}'' # rest) = CHR 0x22 # cs @ CHR ''}'' # rest"
    by (simp add: e skip_ws_def is_ws_def)
  have f: "foldl (\<lambda>d kv. dict_set d (fst kv) (snd kv)) [] ms = ms"
    using fold_dict_set_distinct[of "[]" ms] assms(2) by simp
  show ?thesis
    using assms(3) by (simp add: o i f)
qed

lemma parse_items_last:
  assumes "parse_value fuel (json_dumps x @ CHR '']'' # rest) = Some (x, CHR '']'' # rest)"
  shows "parse_items (Suc fuel) (json_dumps x @ CHR '']'' # rest) = Some ([x], rest)"
  using assms by (simp add: skip_ws_def is_ws_def)

lemma parse_items_more:
  assumes "parse_value fuel (json_dumps x @ '', '' @ later) = Some (x, '', '' @ later)"
    and "parse_items fuel later = Some (xs, rest)"
  shows "parse_items (Suc fuel) (json_dumps x @ '', '' @ later) = Some (x # xs, rest)"
proof -
  have "parse_items fuel (CHR '' '' # later) = Some (xs, rest)"
    using assms(2) by (simp add: parse_items_ws is_ws_def)
  then show ?thesis
    using assms(1) by (simp add: skip_ws_def is_ws_def push_def)
qed

lemma parse_members_key:
  "parse_members (Suc fuel) (dumps_str k @ CHR '':'' # CHR '' '' # s) =
     (case parse_value fuel s of
        None \<Rightarrow> None
      | Some (v, r) \<Rightarrow>
          (case skip_ws r of
             [] \<Rightarrow> None
           | c # cs \<Rightarrow>
               if c = CHR ''}'' then Some ([(k, v)], cs)
               else if c = CHR '','' then push (k, v) (parse_members fuel cs)
               else None))"
proof -
  have a: "dumps_str k @ CHR '':'' # CHR '' '' # s =
           CHR 0x22 # concat (map escape_char k) @ CHR 0x22 # CHR '':'' # CHR '' '' # s"
    by (simp add: dumps_str_def)
  have b: "parse_value fuel (CHR '' '' # s) = parse_value fuel s"
    by (simp add: parse_value_ws is_ws_def)
  show ?thesis
    unfolding a
    by (simp add: skip_ws_def is_ws_def parse_chars_body b del: parse_chars.simps)
qed

lemma parse_members_last:
  assumes "parse_value fuel (json_dumps v @ CHR ''}'' # rest) = Some (v, CHR ''}'' # rest)"
  shows "parse_members (Suc fuel) (dumps_str k @ '': '' @ json_dumps v @ CHR ''}'' # rest) =
         Some ([(k, v)], rest)"
  using assms by (simp add: parse_members_key skip_ws_def is_ws_def del: parse_members.simps)

lemma parse_members_more:
  assumes "parse_value fuel (json_dumps v @ '', '' @ later) = Some (v, '', '' @ later)"
    and "parse_members fuel later = Some (ms, rest)"
  shows "parse_members (Suc fuel) (dumps_str k @ '': '' @ json_dumps v @ '', '' @ later) =
         Some ((k, v) # ms, rest)"
proof -
  have "parse_members fuel (CHR '' '' # later) = Some (ms, rest)"
    using assms(2) by (simp add: parse_members_ws is_ws_def)
  then show ?thesis
    using assms(1)
    by (simp add: parse_members_key skip_ws_def is_ws_def push_def del: parse_members.simps)
qed

lemma delimited_simps:
  "delimited []" "delimited (CHR '','' # s)" "delimited (CHR '']'' # s)" "delimited (CHR ''}'' # s)"
  by (simp_all add: delimited_def)

lemma parse_round_trip:
  "(\<forall>fuel rest. need v \<le> fuel \<longrightarrow> delimited rest \<longrightarrow> well_formed v \<longrightarrow>
      parse_value fuel (json_dumps v @ rest) = Some (v, rest))"
  "(\<forall>fuel rest. xs \<noteq> [] \<longrightarrow> need_items xs \<le> fuel \<longrightarrow> well_formed_items xs \<longrightarrow>
      parse_items fuel (dumps_items xs @ CHR '']'' # rest) = Some (xs, rest))"
  "(\<forall>fuel rest. ms \<noteq> [] \<longrightarrow> need_members ms \<le> fuel \<longrightarrow> well_formed_members ms \<longrightarrow>
      parse_members fuel (dumps_members ms @ CHR ''}'' # rest) = Some (ms, rest))"
proof (induction v and xs and ms rule: json_dumps_dumps_items_dumps_members.induct)
  case 1
  show ?case
  proof (intro allI impI)
    fix fuel rest assume "need JNull \<le> fuel"
    then obtain f where "fuel = Suc f" by (cases fuel) auto
    then show "parse_value fuel (json_dumps JNull @ rest) = Some (JNull, rest)"
      using parse_value_null[of f rest] by simp
  qed
next
  case (2 b)
  show ?case
  proof (intro allI impI)
    fix fuel rest assume "need (JBool b) \<le> fuel"
    then obtain f where "fuel = Suc f" by (cases fuel) auto
    then show "parse_value fuel (json_dumps (JBool b) @ rest) = Some (JBool b, rest)"
      using parse_value_bool[of f b rest] by simp
  qed
next
  case (3 i)
  show ?case
  proof (intro allI impI)
    fix fuel rest assume "need (JInt i) \<le> fuel" and d: "delimited rest"
    then obtain f where "fuel = Suc f" by (cases fuel) auto
    then show "parse_value fuel (json_dumps (JInt i) @ rest) = Some (JInt i, rest)"
      using parse_value_int[OF d, of f i] by simp
  qed
next
  case (4 x)
  show ?case
  proof (intro allI impI)
    fix fuel rest assume "need (JFloat x) \<le> fuel" and d: "delimited rest"
      and w: "well_formed (JFloat x)"
    then obtain f where "fuel = Suc f" by (cases fuel) auto
    then show "parse_value fuel (json_dumps (JFloat x) @ rest) = Some (JFloat x, rest)"
      using parse_value_float[OF _ d, of x f] w by simp
  qed
next
  case (5 s)
  show ?case
  proof (intro allI impI)
    fix fuel rest assume "need (JStr s) \<le> fuel"
    then obtain f where "fuel = Suc f" by (cases fuel) auto
    then show "parse_value fuel (json_dumps (JStr s) @ rest) = Some (JStr s, rest)"
      using parse_value_str[of f s rest] by simp
  qed
next
  case (6 xs)
  show ?case
  proof (intro allI impI)
    fix fuel rest
    assume n: "need (JList xs) \<le> fuel" and w: "well_formed (JList xs)"
    then obtain f where f: "fuel = Suc f" "need_items xs \<le> f" by (cases fuel) auto
    show "parse_value fuel (json_dumps (JList xs) @ rest) = Some (JList xs, rest)"
    proof (cases "xs = []")
      case True
      then show ?thesis using parse_value_list_empty[of f rest] f by simp
    next
      case False
      then have "parse_items f (dumps_items xs @ CHR '']'' # rest) = Some (xs, rest)"
        using 6 f w by simp
      moreover have "well_formed_items xs" using w by simp
      ultimately show ?thesis using parse_value_list[OF False] f by simp
    qed
  qed
next
  case (7 d)
  show ?case
  proof (intro allI impI)
    fix fuel rest
    assume n: "need (JObj d) \<le> fuel" and w: "well_formed (JObj d)"
    then obtain f where f: "fuel = Suc f" "need_members d \<le> f" by (cases fuel) auto
    show "parse_value fuel (json_dumps (JObj d) @ rest) = Some (JObj d, rest)"
    proof (cases "d = []")
      case True
      then show ?thesis using parse_value_obj_empty[of f rest] f by simp
    next
      case False
      then have "parse_members f (dumps_members d @ CHR ''}'' # rest) = Some (d, rest)"
        using 7 f w by simp
      from parse_value_obj[OF False _ this] show ?thesis using f w by simp
    qed
  qed
next
  case 8
  show ?case by simp
next
  case (9 x)
  show ?case
  proof (intro allI impI)
    fix fuel rest
    assume n: "need_items [x] \<le> fuel" and w: "well_formed_items [x]"
    then obtain f where f: "fuel = Suc f" "need x \<le> f" by (cases fuel) auto
    have "parse_value f (json_dumps x @ CHR '']'' # rest) = Some (x, CHR '']'' # rest)"
      using 9 f w by (simp add: delimited_simps)
    from parse_items_last[OF this] show
      "parse_items fuel (dumps_items [x] @ CHR '']'' # rest) = Some ([x], rest)"
      using f by simp
  qed
next
  case (10 x y ys)
  show ?case
  proof (intro allI impI)
    fix fuel rest
    assume n: "need_items (x # y # ys) \<le> fuel" and w: "well_formed_items (x # y # ys)"
    then obtain f where f: "fuel = Suc f" "need x \<le> f" "need_items (y # ys) \<le> f"
      by (cases fuel) auto
    let ?later = "dumps_items (y # ys) @ CHR '']'' # rest"
    have a: "parse_value f (json_dumps x @ '', '' @ ?later) = Some (x, '', '' @ ?later)"
      using 10(1) f w by (simp add: delimited_simps)
    have b: "parse_items f ?later = Some (y # ys, rest)"
      using 10(2) f w by simp
    from parse_items_more[OF a b] show
      "parse_items fuel (dumps_items (x # y # ys) @ CHR '']'' # rest) = Some (x # y # ys, rest)"
      using f by simp
  qed
next
  case 11
  show ?case by simp
next
  case (12 k v)
  show ?case
  proof (intro allI impI)
    fix fuel rest
    assume n: "need_members [(k, v)] \<le> fuel" and w: "well_formed_members [(k, v)]"
    then obtain f where f: "fuel = Suc f" "need v \<le> f" by (cases fuel) auto
    have "parse_value f (json_dumps v @ CHR ''}'' # rest) = Some (v, CHR ''}'' # rest)"
      using 12 f w by (simp add: delimited_simps)
    from parse_members_last[OF this] show
      "parse_members fuel (dumps_members [(k, v)] @ CHR ''}'' # rest) = Some ([(k, v)], rest)"
      using f by simp
  qed
next
  case (13 k v m ms)
  show ?case
  proof (intro allI impI)
    fix fuel rest
    assume n: "need_members ((k, v) # m # ms) \<le> fuel"
      and w: "well_formed_members ((k, v) # m # ms)"
    then obtain f where f: "fuel = Suc f" "need v \<le> f" "need_members (m # ms) \<le> f"
      by (cases fuel) auto
    let ?later = "dumps_members (m # ms) @ CHR ''}'' # rest"
    have a: "parse_value f (json_dumps v @ '', '' @ ?later) = Some (v, '', '' @ ?later)"
      using 13(1) f w by (simp add: delimited_simps)
    have b: "parse_members f ?later = Some (m # ms, rest)"
      using 13(2) f w by simp
    from parse_members_more[OF a b] show
      "parse_members fuel (dumps_members ((k, v) # m # ms) @ CHR ''}'' # rest) =
       Some ((k, v) # m # ms, rest)"
      using f by simp
  qed
qed

lemma str_int_nonempty: "str_int i \<noteq> []"
  using digits_of_nonempty by (simp add: str_int_def)

lemma float_digits_nonempty: "float_digits m e \<noteq> []"
  by (simp add: float_digits_def Let_def)

lemma dumps_float_nonempty: "dumps_float x \<noteq> []"
  by (cases x) (simp_all add: float_digits_nonempty)

lemma need_le_length:
  "need v \<le> length (json_dumps v)"
  "need_items xs \<le> Suc (length (dumps_items xs))"
  "need_members ms \<le> Suc (length (dumps_members ms))"
proof (induction v and xs and ms rule: json_dumps_dumps_items_dumps_members.induct)
  case (3 i)
  have "1 \<le> length (str_int i)" using str_int_nonempty[of i] by (cases "str_int i") auto
  then show ?case by simp
next
  case (4 x)
  have "1 \<le> length (dumps_float x)"
    using dumps_float_nonempty[of x] by (cases "dumps_float x") auto
  then show ?case by simp
qed (auto simp: dumps_str_def)

lemma json_loads_json_dumps: "well_formed v \<Longrightarrow> json_loads (json_dumps v) = Some v"
proof -
  assume w: "well_formed v"
  have "need v \<le> Suc (length (json_dumps v))" using need_le_length(1)[of v] by simp
  then have "parse_value (Suc (length (json_dumps v))) (json_dumps v @ []) = Some (v, [])"
    using parse_round_trip(1)[of v] w delimited_simps(1) by blast
  then show ?thesis by (simp add: json_loads_def skip_ws_def)
qed

lemma hex_char_no_newline: "d < 16 \<Longrightarrow> hex_char d \<noteq> CHR 0x0A"
proof -
  assume "d < 16"
  then have "d \<in> {0, 1, 2, 3, 4, 5, 6, 7, 8, 9, 10, 11, 12, 13, 14, 15}" by simp arith
  then show ?thesis by (auto simp: hex_char_def)
qed

lemma escape_char_no_newline: "CHR 0x0A \<notin> set (escape_char c)"
proof -
  have "(of_char c :: nat) < 256" by simp
  then have d: "(of_char c :: nat) div 16 < 16" "(of_char c :: nat) mod 16 < 16"
    by arith+
  show ?thesis
    using hex_char_no_newline[OF d(1)] hex_char_no_newline[OF d(2)]
    by (auto simp: escape_char_def Let_def)
qed

lemma dumps_str_no_newline: "CHR 0x0A \<notin> set (dumps_str s)"
  using escape_char_no_newline by (auto simp: dumps_str_def)

lemma digits_of_no_newline: "CHR 0x0A \<notin> set (digits_of n)"
proof (induction n rule: digits_of.induct)
  case (1 n)
  have d: "digit_char k \<noteq> CHR 0x0A" if "k < 10" for k
  proof -
    have "nat k \<in> {0, 1, 2, 3, 4, 5, 6, 7, 8, 9}" using that by auto
    then show ?thesis by (auto simp: digit_char_def)
  qed
  show ?case
  proof (cases "n < 10")
    case True
    then show ?thesis using d[of n] by (simp add: digits_of.simps[of n])
  next
    case False
    then have "n mod 10 < 10" by simp
    then show ?thesis using False 1 d[of "n mod 10"] by (simp add: digits_of.simps[of n])
  qed
qed

lemma str_int_no_newline: "CHR 0x0A \<notin> set (str_int i)"
  by (simp add: str_int_def digits_of_no_newline)

lemma exponent_text_no_newline: "CHR 0x0A \<notin> set (exponent_text x)"
  by (simp add: exponent_text_def digits_of_no_newline)

lemma float_digits_no_newline: "CHR 0x0A \<notin> set (float_digits m e)"
proof -
  have t: "CHR 0x0A \<notin> set (take k (digits_of m))" for k
    using digits_of_no_newline[of m] by (auto dest: in_set_takeD)
  have d: "CHR 0x0A \<notin> set (drop k (digits_of m))" for k
    using digits_of_no_newline[of m] by (auto dest: in_set_dropD)
  have l: "CHR 0x0A \<notin> set (tl (digits_of m))"
    using digits_of_no_newline[of m] by (cases "digits_of m") auto
  show ?thesis
    using t d l digits_of_no_newline[of m] exponent_text_no_newline
    by (simp add: float_digits_def Let_def)
qed

lemma dumps_float_no_newline: "CHR 0x0A \<notin> set (dumps_float x)"
  by (cases x) (simp_all add: float_digits_no_newline)

lemma json_dumps_no_newline:
  "CHR 0x0A \<notin> set (json_dumps v)"
  "CHR 0x0A \<notin> set (dumps_items xs)"
  "CHR 0x0A \<notin> set (dumps_members ms)"
  by (induction v and xs and ms rule: json_dumps_dumps_items_dumps_members.induct)
    (simp_all add: dumps_str_no_newline str_int_no_newline dumps_float_no_newline)

lemma lines_from_line:
  "CHR 0x0A \<notin> set l \<Longrightarrow> lines_from cur (l @ CHR 0x0A # rest) = (cur @ l) # lines_from [] rest"
  by (induction l arbitrary: cur) auto

lemma split_lines_write_ndjson: "split_lines (write_ndjson rows) = map json_dumps rows"
proof (induction rows)
  case Nil
  show ?case by (simp add: split_lines_def write_ndjson_def)
next
  case (Cons r rows)
  have "split_lines (write_ndjson (r # rows)) =
        lines_from [] (json_dumps r @ CHR 0x0A # write_ndjson rows)"
    by (simp add: split_lines_def write_ndjson_def)
  also have "\<dots> = json_dumps r # split_lines (write_ndjson rows)"
    using lines_from_line[OF json_dumps_no_newline(1), of "[]" r "write_ndjson rows"]
    by (simp add: split_lines_def)
  finally show ?case using Cons by simp
qed

lemma read_ndjson_write_ndjson:
  assumes "\<forall>r\<in>set rows. well_formed r"
  shows "read_ndjson (write_ndjson rows) = Some rows"
proof -
  have "those (map json_loads (map json_dumps rows)) = Some rows"
    using assms by (induction rows) (simp_all add: json_loads_json_dumps)
  then show ?thesis
    by (simp add: read_ndjson_def split_lines_write_ndjson)
qed

lemma float_equal_refl: "float_canonical x \<Longrightarrow> x \<noteq> NaN \<Longrightarrow> float_equal x x"
  by (cases x) auto

lemma equal_by_field_refl:
  "well_formed v \<longrightarrow> nan_free v \<longrightarrow> equal_by_field v v"
  "well_formed_items xs \<longrightarrow> nan_free_items xs \<longrightarrow> equal_items xs xs"
  "well_formed_members ms \<longrightarrow> nan_free_members ms \<longrightarrow> equal_members ms ms"
  by (induction v and xs and ms rule: json_dumps_dumps_items_dumps_members.induct)
    (simp_all add: float_equal_refl)

text \<open>
  Claim C9, as the code has it. Writing a sequence of \<open>N\<close> rows that hold no NaN with
  \<^verbatim>\<open>write_ndjson\<close> and parsing the text line by line gives \<open>N\<close> lines and \<open>N\<close> records, equal
  by field to the originals and in their order. The rows are any values of the embedding
  in which every dict holds each key once and every finite float is named by its decimal,
  which the values of Python are.
\<close>

theorem ndjson_round_trip:
  assumes "\<forall>r\<in>set rows. well_formed r \<and> nan_free r"
  shows "\<exists>parsed. read_ndjson (write_ndjson rows) = Some parsed \<and>
           length parsed = length rows \<and>
           list_all2 equal_by_field parsed rows \<and>
           length (split_lines (write_ndjson rows)) = length rows"
proof -
  have r: "read_ndjson (write_ndjson rows) = Some rows"
    using assms by (simp add: read_ndjson_write_ndjson)
  have "list_all2 equal_by_field rows rows"
    using assms by (simp add: list_all2_same equal_by_field_refl(1))
  then show ?thesis using r by (simp add: split_lines_write_ndjson)
qed

theorem ndjson_round_trip_witness:
  "(\<exists>parsed. read_ndjson (write_ndjson
       [JObj [(''cik'', JStr ''0000320193''), (''val'', JFloat (Finite False 152 (- 2))),
              (''fy'', JNull)],
        JObj [(''form'', JStr [CHR ''1'', CHR ''0'', CHR 0x0A, CHR ''K'']),
              (''xs'', JList [JBool True, JInt (- 3), JFloat (Infinity True),
                             JFloat (Finite True 1 16)])]]) = Some parsed \<and>
      length parsed = 2 \<and>
      list_all2 equal_by_field parsed
       [JObj [(''cik'', JStr ''0000320193''), (''val'', JFloat (Finite False 152 (- 2))),
              (''fy'', JNull)],
        JObj [(''form'', JStr [CHR ''1'', CHR ''0'', CHR 0x0A, CHR ''K'']),
              (''xs'', JList [JBool True, JInt (- 3), JFloat (Infinity True),
                             JFloat (Finite True 1 16)])]]) \<and>
   write_ndjson
       [JObj [(''cik'', JStr ''0000320193''), (''val'', JFloat (Finite False 152 (- 2))),
              (''fy'', JNull)]] =
   [CHR ''{'', CHR 0x22] @ ''cik'' @ [CHR 0x22] @ '': '' @ [CHR 0x22] @ ''0000320193'' @
   [CHR 0x22] @ '', '' @ [CHR 0x22] @ ''val'' @ [CHR 0x22] @ '': 1.52, '' @ [CHR 0x22] @ ''fy'' @
   [CHR 0x22] @ '': null}'' @ [CHR 0x0A]"
proof -
  let ?rows = "[JObj [(''cik'', JStr ''0000320193''), (''val'', JFloat (Finite False 152 (- 2))),
              (''fy'', JNull)],
        JObj [(''form'', JStr [CHR ''1'', CHR ''0'', CHR 0x0A, CHR ''K'']),
              (''xs'', JList [JBool True, JInt (- 3), JFloat (Infinity True),
                             JFloat (Finite True 1 16)])]]"
  have h: "\<forall>r\<in>set ?rows. well_formed r \<and> nan_free r" by simp
  have t: "write_ndjson
       [JObj [(''cik'', JStr ''0000320193''), (''val'', JFloat (Finite False 152 (- 2))),
              (''fy'', JNull)]] =
   [CHR ''{'', CHR 0x22] @ ''cik'' @ [CHR 0x22] @ '': '' @ [CHR 0x22] @ ''0000320193'' @
   [CHR 0x22] @ '', '' @ [CHR 0x22] @ ''val'' @ [CHR 0x22] @ '': 1.52, '' @ [CHR 0x22] @ ''fy'' @
   [CHR 0x22] @ '': null}'' @ [CHR 0x0A]"
    by code_simp
  show ?thesis using ndjson_round_trip[OF h] t by auto
qed

text \<open>
  The claim as the specification has it, for every sequence of rows, fails on a row whose
  value is a NaN: the row is written as \<^verbatim>\<open>{"val": NaN}\<close>, the line parses to a record
  with a NaN in that field, and a NaN is not equal to a NaN, so the record is not equal by
  field to the original.
\<close>

theorem ndjson_round_trip_nan:
  "write_ndjson [JObj [(''val'', JFloat NaN)]] =
     [CHR ''{'', CHR 0x22] @ ''val'' @ [CHR 0x22] @ '': NaN}'' @ [CHR 0x0A] \<and>
   read_ndjson (write_ndjson [JObj [(''val'', JFloat NaN)]]) =
     Some [JObj [(''val'', JFloat NaN)]] \<and>
   \<not> list_all2 equal_by_field [JObj [(''val'', JFloat NaN)]] [JObj [(''val'', JFloat NaN)]]"
  by code_simp

end
